theory Spec2Isabelle
  imports Main "HOL-Library.Word" "HOL-Library.Multiset"
begin

unbundle bit_operations_syntax

section \<open>C strings and the libc string functions used by lab1.c\<close>

text \<open>
  A \<open>char\<close> is one byte. A C string is modelled by the list of its bytes before the
  terminating NUL, so the list holds no NUL and \<open>strlen\<close> is its length; reading at
  the end of the list reads the terminator. A pointer \<open>line + start\<close> into a string
  is the list \<open>drop start line\<close>.
\<close>

type_synonym byte = "8 word"

type_synonym cstr = "byte list"

definition peek :: "cstr \<Rightarrow> byte" where
  "peek s = (case s of [] \<Rightarrow> 0 | c # _ \<Rightarrow> c)"

definition strlen :: "cstr \<Rightarrow> nat" where
  "strlen s = length s"

text \<open>
  \<open>strcmp\<close> and \<open>strncmp\<close> compare bytes as unsigned values, stop at the first
  difference and stop after comparing a NUL. \<open>strncmp\<close> looks at no more than
  \<open>n\<close> bytes.
\<close>

fun strcmp :: "cstr \<Rightarrow> cstr \<Rightarrow> int" where
  "strcmp [] [] = 0"
| "strcmp [] (c2 # s2) = (if c2 = 0 then 0 else - int (unat c2))"
| "strcmp (c1 # s1) [] = (if c1 = 0 then 0 else int (unat c1))"
| "strcmp (c1 # s1) (c2 # s2) =
     (if c1 \<noteq> c2 then int (unat c1) - int (unat c2)
      else if c1 = 0 then 0
      else strcmp s1 s2)"

fun strncmp :: "cstr \<Rightarrow> cstr \<Rightarrow> nat \<Rightarrow> int" where
  "strncmp s1 s2 0 = 0"
| "strncmp s1 s2 (Suc n) =
     (if peek s1 \<noteq> peek s2 then int (unat (peek s1)) - int (unat (peek s2))
      else if peek s1 = 0 then 0
      else strncmp (tl s1) (tl s2) n)"

text \<open>
  \<open>char temp[N] = {0}; strncpy(temp, src, n);\<close> with \<open>n < N\<close>: the buffer then holds
  the first \<open>n\<close> bytes of \<open>src\<close> (all of \<open>src\<close> when it is shorter), NUL padded.
\<close>

definition strncpy :: "cstr \<Rightarrow> nat \<Rightarrow> cstr" where
  "strncpy src n = take n src"

section \<open>The UTF-8 scanner\<close>

text \<open>
  The scanner reads \<open>str[0]\<close> only. Where \<open>char\<close> is signed the byte is
  sign-extended before the mask is applied; the masks keep bits of the low byte only, so
  the comparisons are those of the byte itself.
\<close>

definition get_utf8_char_len :: "cstr \<Rightarrow> nat" where
  "get_utf8_char_len str =
     (if peek str AND 0x80 = 0 then 1
      else if peek str AND 0xE0 = 0xC0 then 2
      else if peek str AND 0xF0 = 0xE0 then 3
      else 1)"

section \<open>The punctuation classifier\<close>

record PunctInfo =
  punct :: cstr
  bytes :: nat

text \<open>
  The table of lab1.c, entry by entry and in its order: 31 entries. Entries 1 to 6, 10 to
  23 and 31 are marks of three UTF-8 bytes each (U+FF0C, U+3002, U+FF01, U+FF1F, U+FF1B,
  U+FF1A; U+300E, U+300F, U+3010, U+3011, U+300A, U+300B, U+3001, U+FF08, U+FF09,
  U+FF3B, U+FF3D, U+FF5B, U+FF5D, U+203B; U+201D) with 3 as length. Entries 24 to 30 are
  one-byte ASCII marks with 1 as length. Between the sixth entry and the entry of U+300E
  the source has three quotation marks, the text \<open>, 3}, {\<close>, three quotation marks and
  \<open>, 3}\<close>: an empty string literal, the string literal \<open>, 3}, {\<close> and another empty
  string literal, which are concatenated, followed by the length 3. That is one entry,
  the seventh, with the seven bytes of \<open>, 3}, {\<close> as pattern and 3 as length.
  Entries 8 and 9 have the one-byte ASCII apostrophe as pattern and 3 as length.
\<close>

definition PUNCTUATIONS :: "PunctInfo list" where
  "PUNCTUATIONS =
    [\<lparr>punct = [0xEF, 0xBC, 0x8C], bytes = 3\<rparr>, \<lparr>punct = [0xE3, 0x80, 0x82], bytes = 3\<rparr>,
     \<lparr>punct = [0xEF, 0xBC, 0x81], bytes = 3\<rparr>, \<lparr>punct = [0xEF, 0xBC, 0x9F], bytes = 3\<rparr>,
     \<lparr>punct = [0xEF, 0xBC, 0x9B], bytes = 3\<rparr>,
     \<lparr>punct = [0xEF, 0xBC, 0x9A], bytes = 3\<rparr>,
     \<lparr>punct = [0x2C, 0x20, 0x33, 0x7D, 0x2C, 0x20, 0x7B], bytes = 3\<rparr>,
     \<lparr>punct = [0x27], bytes = 3\<rparr>, \<lparr>punct = [0x27], bytes = 3\<rparr>,
     \<lparr>punct = [0xE3, 0x80, 0x8E], bytes = 3\<rparr>, \<lparr>punct = [0xE3, 0x80, 0x8F], bytes = 3\<rparr>,
     \<lparr>punct = [0xE3, 0x80, 0x90], bytes = 3\<rparr>, \<lparr>punct = [0xE3, 0x80, 0x91], bytes = 3\<rparr>,
     \<lparr>punct = [0xE3, 0x80, 0x8A], bytes = 3\<rparr>,
     \<lparr>punct = [0xE3, 0x80, 0x8B], bytes = 3\<rparr>, \<lparr>punct = [0xE3, 0x80, 0x81], bytes = 3\<rparr>,
     \<lparr>punct = [0xEF, 0xBC, 0x88], bytes = 3\<rparr>, \<lparr>punct = [0xEF, 0xBC, 0x89], bytes = 3\<rparr>,
     \<lparr>punct = [0xEF, 0xBC, 0xBB], bytes = 3\<rparr>,
     \<lparr>punct = [0xEF, 0xBC, 0xBD], bytes = 3\<rparr>, \<lparr>punct = [0xEF, 0xBD, 0x9B], bytes = 3\<rparr>,
     \<lparr>punct = [0xEF, 0xBD, 0x9D], bytes = 3\<rparr>, \<lparr>punct = [0xE2, 0x80, 0xBB], bytes = 3\<rparr>,
     \<lparr>punct = [0x28], bytes = 1\<rparr>, \<lparr>punct = [0x29], bytes = 1\<rparr>,
     \<lparr>punct = [0x5B], bytes = 1\<rparr>, \<lparr>punct = [0x5D], bytes = 1\<rparr>,
     \<lparr>punct = [0x7B], bytes = 1\<rparr>,
     \<lparr>punct = [0x7D], bytes = 1\<rparr>, \<lparr>punct = [0x22], bytes = 1\<rparr>,
     \<lparr>punct = [0xE2, 0x80, 0x9D], bytes = 3\<rparr>]"

text \<open>
  The loop of \<open>check_punctuation\<close> over a table: the first entry whose pattern
  \<open>strncmp\<close> finds equal over \<open>bytes\<close> bytes gives \<open>(True, bytes)\<close>; with no
  such entry the result is \<open>(False, 0)\<close>.
\<close>

fun check_punctuation_loop :: "PunctInfo list \<Rightarrow> cstr \<Rightarrow> bool \<times> nat" where
  "check_punctuation_loop [] str = (False, 0)"
| "check_punctuation_loop (p # ps) str =
     (if strncmp str (punct p) (bytes p) = 0 then (True, bytes p)
      else check_punctuation_loop ps str)"

definition check_punctuation :: "cstr \<Rightarrow> bool \<times> nat" where
  "check_punctuation str = check_punctuation_loop PUNCTUATIONS str"

section \<open>Stopwords and the frequency table\<close>

fun is_stopword :: "cstr \<Rightarrow> cstr list \<Rightarrow> bool" where
  "is_stopword token [] = False"
| "is_stopword token (s # stopwords) =
     (if strcmp token s = 0 then True else is_stopword token stopwords)"

text \<open>
  \<open>count\<close> is a C \<open>int\<close>: 32 bits, read as a signed value by \<open>sint\<close>. The
  counters of type \<open>size_t\<close> are 64 bits wide.
\<close>

record WordCount =
  word :: cstr
  count :: "32 word"

text \<open>
  The globals of lab1.c. \<open>g_word_counts\<close> holds the initialised entries of the
  array, so \<open>g_word_total\<close> is its length.
\<close>

record globals =
  g_word_counts :: "WordCount list"
  g_word_capacity :: "64 word"
  g_word_count :: "64 word"

definition g_word_total :: "globals \<Rightarrow> 64 word" where
  "g_word_total g = of_nat (length (g_word_counts g))"

definition globals_init :: globals where
  "globals_init = \<lparr>g_word_counts = [], g_word_capacity = 0, g_word_count = 0\<rparr>"

text \<open>The search loop of \<open>add_token_count\<close>: the first entry with the token is incremented.\<close>

fun increment_existing :: "cstr \<Rightarrow> WordCount list \<Rightarrow> WordCount list option" where
  "increment_existing token [] = None"
| "increment_existing token (w # ws) =
     (if strcmp (word w) token = 0 then Some (w\<lparr>count := count w + 1\<rparr> # ws)
      else map_option ((#) w) (increment_existing token ws))"

text \<open>
  \<open>realloc_ok\<close> and \<open>malloc_ok\<close> say whether the allocator satisfies the request,
  should the call make one. A failed \<open>realloc\<close> returns early, after the capacity was
  doubled and before anything is counted; a failed \<open>malloc\<close> leaves the token out of
  the table although it was counted in \<open>g_word_count\<close>.
\<close>

definition add_token_count :: "bool \<Rightarrow> bool \<Rightarrow> cstr \<Rightarrow> globals \<Rightarrow> globals" where
  "add_token_count realloc_ok malloc_ok token g =
     (let grow = (g_word_total g \<ge> g_word_capacity g);
          g1 = (if grow
                then g\<lparr>g_word_capacity :=
                        (if g_word_capacity g = 0 then 10 else g_word_capacity g * 2)\<rparr>
                else g)
      in if grow \<and> \<not> realloc_ok then g1
         else
           let g2 = g1\<lparr>g_word_count := g_word_count g1 + 1\<rparr> in
           (case increment_existing token (g_word_counts g2) of
              Some ws \<Rightarrow> g2\<lparr>g_word_counts := ws\<rparr>
            | None \<Rightarrow>
                if malloc_ok
                then g2\<lparr>g_word_counts := g_word_counts g2 @ [\<lparr>word = token, count = 1\<rparr>]\<rparr>
                else g2))"

section \<open>The maximum-match tokenizer\<close>

definition MAX_CHINESE_BYTES :: nat where
  "MAX_CHINESE_BYTES = 21"

fun in_dict :: "cstr \<Rightarrow> cstr list \<Rightarrow> bool" where
  "in_dict temp [] = False"
| "in_dict temp (d # dict) = (if strcmp temp d = 0 then True else in_dict temp dict)"

text \<open>
  The loop over \<open>match_len\<close>, from its current value down to 1: a length that does not
  fit in the line is skipped, the first length whose substring is in the dictionary is
  the result.
\<close>

fun dict_match :: "cstr \<Rightarrow> nat \<Rightarrow> cstr list \<Rightarrow> nat \<Rightarrow> nat option" where
  "dict_match line start dict 0 = None"
| "dict_match line start dict (Suc m) =
     (if start + Suc m \<le> strlen line \<and> in_dict (strncpy (drop start line) (Suc m)) dict
      then Some (Suc m)
      else dict_match line start dict m)"

datatype branch = Punctuation | Dictionary | Fallback

text \<open>
  One iteration of the \<open>while\<close> loop at cursor \<open>start\<close>: the branch taken, the number
  of bytes added to \<open>start\<close>, and the token passed to \<open>fprintf\<close> and
  \<open>add_token_count\<close>, if any.
\<close>

definition seg_iter :: "cstr \<Rightarrow> cstr list \<Rightarrow> cstr list \<Rightarrow> nat \<Rightarrow> branch \<times> nat \<times> cstr option" where
  "seg_iter line dict stopwords start =
     (case check_punctuation (drop start line) of
        (True, punct_len) \<Rightarrow> (Punctuation, punct_len, None)
      | (False, _) \<Rightarrow>
          (case dict_match line start dict MAX_CHINESE_BYTES of
             Some match_len \<Rightarrow>
               (let temp = strncpy (drop start line) match_len
                in (Dictionary, match_len,
                    if \<not> is_stopword temp stopwords then Some temp else None))
           | None \<Rightarrow>
               (let char_len = get_utf8_char_len (drop start line);
                    temp = strncpy (drop start line) char_len
                in (Fallback, char_len,
                    if \<not> fst (check_punctuation temp) \<and> \<not> is_stopword temp stopwords
                    then Some temp else None))))"

definition fprintf_token :: "cstr \<Rightarrow> cstr \<Rightarrow> cstr" where
  "fprintf_token seg_file temp = seg_file @ [0x5B] @ temp @ [0x5D]"

text \<open>Every iteration moves the cursor; the loop functions below terminate by this.\<close>

lemma check_punctuation_loop_True:
  "check_punctuation_loop ps str = (True, n) \<Longrightarrow>
     \<exists>p \<in> set ps. n = bytes p \<and> strncmp str (punct p) (bytes p) = 0"
  by (induction ps) (auto split: if_splits)

lemma check_punctuation_loop_False:
  "check_punctuation_loop ps str = (False, n) \<Longrightarrow>
     n = 0 \<and> (\<forall>p \<in> set ps. strncmp str (punct p) (bytes p) \<noteq> 0)"
  by (induction ps) (auto split: if_splits)

lemma PUNCTUATIONS_bytes: "p \<in> set PUNCTUATIONS \<Longrightarrow> bytes p = 1 \<or> bytes p = 3"
  by (auto simp: PUNCTUATIONS_def)

lemma check_punctuation_len:
  "check_punctuation str = (True, n) \<Longrightarrow> n = 1 \<or> n = 3"
  unfolding check_punctuation_def
  by (drule check_punctuation_loop_True) (auto dest: PUNCTUATIONS_bytes)

lemma dict_match_Some:
  "dict_match line start dict m = Some L \<Longrightarrow>
     1 \<le> L \<and> L \<le> m \<and> start + L \<le> strlen line \<and> in_dict (strncpy (drop start line) L) dict"
  by (induction m) (auto split: if_splits)

lemma dict_match_longest:
  "dict_match line start dict m = Some L \<Longrightarrow> L < L' \<Longrightarrow> L' \<le> m \<Longrightarrow>
     start + L' \<le> strlen line \<Longrightarrow> \<not> in_dict (strncpy (drop start line) L') dict"
proof (induction m)
  case 0
  then show ?case by simp
next
  case (Suc m)
  show ?case
  proof (cases "start + Suc m \<le> strlen line \<and> in_dict (strncpy (drop start line) (Suc m)) dict")
    case True
    with Suc.prems show ?thesis by simp
  next
    case False
    with Suc.prems have rec: "dict_match line start dict m = Some L"
      by (simp split: if_splits)
    show ?thesis
    proof (cases "L' = Suc m")
      case True
      with False Suc.prems show ?thesis by simp
    next
      case False
      with Suc.prems have "L' \<le> m" by simp
      with Suc.IH rec Suc.prems show ?thesis by simp
    qed
  qed
qed

lemma dict_match_None:
  "dict_match line start dict m = None \<Longrightarrow> 1 \<le> L \<Longrightarrow> L \<le> m \<Longrightarrow>
     start + L \<le> strlen line \<Longrightarrow> \<not> in_dict (strncpy (drop start line) L) dict"
proof (induction m)
  case 0
  then show ?case by simp
next
  case (Suc m)
  then show ?case by (cases "L = Suc m") (auto split: if_splits)
qed

lemma get_utf8_char_len_range: "get_utf8_char_len str \<in> {1, 2, 3}"
  by (simp add: get_utf8_char_len_def)

lemma seg_iter_advance: "1 \<le> fst (snd (seg_iter line dict stopwords start))"
proof (cases "check_punctuation (drop start line)")
  case (Pair found punct_len)
  show ?thesis
  proof (cases found)
    case True
    with Pair check_punctuation_len show ?thesis
      by (fastforce simp: seg_iter_def)
  next
    case False
    show ?thesis
    proof (cases "dict_match line start dict MAX_CHINESE_BYTES")
      case None
      have "1 \<le> get_utf8_char_len (drop start line)"
        using get_utf8_char_len_range [of "drop start line"] by auto
      with Pair False None show ?thesis
        by (simp add: seg_iter_def Let_def)
    next
      case (Some match_len)
      with Pair False dict_match_Some [OF Some] show ?thesis
        by (simp add: seg_iter_def Let_def)
    qed
  qed
qed

text \<open>
  The iterations of the loop from cursor \<open>start\<close> on, in order: where the cursor stood,
  the branch taken, the advance and the token emitted.
\<close>

record step =
  at :: nat
  via :: branch
  advance :: nat
  emitted :: "cstr option"

function seg_steps :: "cstr \<Rightarrow> cstr list \<Rightarrow> cstr list \<Rightarrow> nat \<Rightarrow> step list" where
  "seg_steps line dict stopwords start =
     (if start < strlen line
      then (case seg_iter line dict stopwords start of
              (b, n, e) \<Rightarrow>
                \<lparr>at = start, via = b, advance = n, emitted = e\<rparr>
                  # seg_steps line dict stopwords (start + n))
      else [])"
  by pat_completeness auto
termination
proof (relation "measure (\<lambda>(line, dict, stopwords, start). strlen line - start)")
  show "wf (measure (\<lambda>(line, dict, stopwords, start). strlen line - start))" by simp
next
  fix line :: cstr and dict stopwords :: "cstr list" and start n :: nat
    and b :: branch and e :: "cstr option" and x :: "nat \<times> cstr option"
  assume lt: "start < strlen line"
    and it: "(b, x) = seg_iter line dict stopwords start" and x: "(n, e) = x"
  from it x have "n = fst (snd (seg_iter line dict stopwords start))"
    by (metis fst_conv snd_conv)
  with seg_iter_advance [of line dict stopwords start] have "1 \<le> n" by simp
  with lt show "((line, dict, stopwords, start + n), (line, dict, stopwords, start))
      \<in> measure (\<lambda>(line, dict, stopwords, start). strlen line - start)"
    by simp
qed

declare seg_steps.simps [simp del]

text \<open>
  \<open>segment_line_in_memory\<close>: the loop with the output file and the globals it writes.
  \<open>mem start\<close> says whether \<open>realloc\<close> and \<open>malloc\<close> succeed in the call of
  \<open>add_token_count\<close> made at cursor \<open>start\<close>.
\<close>

function seg_loop ::
  "(nat \<Rightarrow> bool \<times> bool) \<Rightarrow> cstr \<Rightarrow> cstr list \<Rightarrow> cstr list \<Rightarrow> nat \<Rightarrow> cstr \<times> globals
     \<Rightarrow> cstr \<times> globals" where
  "seg_loop mem line dict stopwords start (seg_file, g) =
     (if start < strlen line
      then (case seg_iter line dict stopwords start of
              (b, n, e) \<Rightarrow>
                seg_loop mem line dict stopwords (start + n)
                  (case e of
                     None \<Rightarrow> (seg_file, g)
                   | Some temp \<Rightarrow>
                       (fprintf_token seg_file temp,
                        add_token_count (fst (mem start)) (snd (mem start)) temp g)))
      else (seg_file, g))"
  by pat_completeness auto
termination
proof (relation "measure (\<lambda>(mem, line, dict, stopwords, start, st). strlen line - start)")
  show "wf (measure (\<lambda>(mem, line, dict, stopwords, start, st). strlen line - start))" by simp
next
  fix mem :: "nat \<Rightarrow> bool \<times> bool" and line :: cstr and dict stopwords :: "cstr list"
    and start n :: nat and seg_file :: cstr and g :: globals
    and b :: branch and e :: "cstr option" and x :: "nat \<times> cstr option"
  assume lt: "start < strlen line"
    and it: "(b, x) = seg_iter line dict stopwords start" and x: "(n, e) = x"
  from it x have "n = fst (snd (seg_iter line dict stopwords start))"
    by (metis fst_conv snd_conv)
  with seg_iter_advance [of line dict stopwords start] have "1 \<le> n" by simp
  with lt show "((mem, line, dict, stopwords, start + n,
        case e of None \<Rightarrow> (seg_file, g)
        | Some temp \<Rightarrow> (fprintf_token seg_file temp,
            add_token_count (fst (mem start)) (snd (mem start)) temp g)),
       (mem, line, dict, stopwords, start, seg_file, g))
      \<in> measure (\<lambda>(mem, line, dict, stopwords, start, st). strlen line - start)"
    by simp
qed

declare seg_loop.simps [simp del]

definition segment_line_in_memory ::
  "(nat \<Rightarrow> bool \<times> bool) \<Rightarrow> cstr \<Rightarrow> cstr list \<Rightarrow> cstr list \<Rightarrow> cstr \<times> globals \<Rightarrow> cstr \<times> globals" where
  "segment_line_in_memory mem line dict stopwords st =
     (case seg_loop mem line dict stopwords 0 st of
        (seg_file, g) \<Rightarrow> (seg_file @ [0x0A], g))"

text \<open>
  The effects of \<open>segment_line_in_memory\<close> are those of its iterations, in order: a step
  with a token appends the bracketed token to the file and records it.
\<close>

fun run_steps :: "(nat \<Rightarrow> bool \<times> bool) \<Rightarrow> step list \<Rightarrow> cstr \<times> globals \<Rightarrow> cstr \<times> globals" where
  "run_steps mem [] st = st"
| "run_steps mem (s # ss) (seg_file, g) =
     run_steps mem ss
       (case emitted s of
          None \<Rightarrow> (seg_file, g)
        | Some temp \<Rightarrow>
            (fprintf_token seg_file temp,
             add_token_count (fst (mem (at s))) (snd (mem (at s))) temp g))"

section \<open>The report of \<open>main\<close>\<close>




section \<open>Notions the properties are stated with\<close>

subsection \<open>Cursor, counts and runs of recordings\<close>

text \<open>Where the cursor stands after a step.\<close>

definition cursor_after :: "step \<Rightarrow> nat" where
  "cursor_after s = at s + advance s"




subsection \<open>Spans that tile the line\<close>




text \<open>
  At no position of the line does the scanner read a codepoint length that goes beyond
  the end of the line.
\<close>

definition no_truncated_codepoint :: "cstr \<Rightarrow> bool" where
  "no_truncated_codepoint line \<longleftrightarrow>
     list_all (\<lambda>i. i + get_utf8_char_len (drop i line) \<le> strlen line) [0..<strlen line]"

text \<open>
  A table entry whose length field does not exceed the length of its pattern:
  \<open>strncmp\<close> then compares the first \<open>bytes\<close> bytes of the pattern and never
  reaches its terminator.
\<close>

definition regular :: "PunctInfo \<Rightarrow> bool" where
  "regular p \<longleftrightarrow> bytes p \<le> length (punct p) \<and> 0 \<notin> set (take (bytes p) (punct p))"

subsection \<open>Well-formed UTF-8 and codepoint boundaries\<close>

text \<open>
  Well-formed UTF-8 text as far as the scanner knows it: a sequence of codepoints, each a
  lead byte of the form 0xxxxxxx (not NUL), 110xxxxx or 1110xxxx followed by as many
  continuation bytes 10xxxxxx as the lead byte announces.
\<close>

definition is_cont :: "byte \<Rightarrow> bool" where
  "is_cont b \<longleftrightarrow> b AND 0xC0 = 0x80"

definition is_lead :: "byte \<Rightarrow> bool" where
  "is_lead b \<longleftrightarrow> b \<noteq> 0 \<and> (b AND 0x80 = 0 \<or> b AND 0xE0 = 0xC0 \<or> b AND 0xF0 = 0xE0)"

function utf8_ok :: "cstr \<Rightarrow> bool" where
  "utf8_ok [] = True"
| "utf8_ok (b # bs) =
     (is_lead b \<and> get_utf8_char_len [b] \<le> Suc (length bs) \<and>
      list_all is_cont (take (get_utf8_char_len [b] - 1) bs) \<and>
      utf8_ok (drop (get_utf8_char_len [b] - 1) bs))"
  by pat_completeness auto
termination
  by (relation "measure length") simp_all

declare utf8_ok.simps(2) [simp del]

text \<open>
  A position of the line is a codepoint boundary when it is the end of the line or holds
  a byte that is not a continuation byte.
\<close>

definition is_char_boundary :: "cstr \<Rightarrow> nat \<Rightarrow> bool" where
  "is_char_boundary line i \<longleftrightarrow> i = length line \<or> (i < length line \<and> \<not> is_cont (line ! i))"

text \<open>
  The token of a step, if it emitted one, is the slice of the line that starts at the
  cursor and has the token's length, which is between 1 and 21. It begins and ends on a
  codepoint boundary and is made of whole codepoints.
\<close>

definition token_sliced :: "cstr \<Rightarrow> step \<Rightarrow> bool" where
  "token_sliced line s \<longleftrightarrow>
     (case emitted s of
        None \<Rightarrow> True
      | Some tok \<Rightarrow> tok = take (length tok) (drop (at s) line) \<and> 1 \<le> length tok \<and> length tok \<le> 21)"

definition token_aligned :: "cstr \<Rightarrow> step \<Rightarrow> bool" where
  "token_aligned line s \<longleftrightarrow>
     (case emitted s of
        None \<Rightarrow> True
      | Some tok \<Rightarrow>
          is_char_boundary line (at s) \<and> is_char_boundary line (at s + length tok) \<and> utf8_ok tok)"

subsection \<open>The tokenizer without the re-check of the fallback branch\<close>

text \<open>
  The variant the claim compares the tokenizer with: \<open>segment_line_in_memory\<close> without
  the call of \<open>check_punctuation\<close> in the fallback branch, where the codepoint is
  emitted unless it is a stopword. Everything else is as in \<open>seg_iter\<close> and
  \<open>seg_steps\<close>.
\<close>

definition seg_iter_no_recheck ::
  "cstr \<Rightarrow> cstr list \<Rightarrow> cstr list \<Rightarrow> nat \<Rightarrow> branch \<times> nat \<times> cstr option" where
  "seg_iter_no_recheck line dict stopwords start =
     (case check_punctuation (drop start line) of
        (True, punct_len) \<Rightarrow> (Punctuation, punct_len, None)
      | (False, _) \<Rightarrow>
          (case dict_match line start dict MAX_CHINESE_BYTES of
             Some match_len \<Rightarrow>
               (let temp = strncpy (drop start line) match_len
                in (Dictionary, match_len,
                    if \<not> is_stopword temp stopwords then Some temp else None))
           | None \<Rightarrow>
               (let char_len = get_utf8_char_len (drop start line);
                    temp = strncpy (drop start line) char_len
                in (Fallback, char_len,
                    if \<not> is_stopword temp stopwords then Some temp else None))))"

lemma seg_iter_no_recheck_advance:
  "fst (snd (seg_iter_no_recheck line dict stopwords start))
     = fst (snd (seg_iter line dict stopwords start))"
  by (simp add: seg_iter_no_recheck_def seg_iter_def Let_def split: prod.split bool.split option.split)

function seg_steps_no_recheck :: "cstr \<Rightarrow> cstr list \<Rightarrow> cstr list \<Rightarrow> nat \<Rightarrow> step list" where
  "seg_steps_no_recheck line dict stopwords start =
     (if start < strlen line
      then (case seg_iter_no_recheck line dict stopwords start of
              (b, n, e) \<Rightarrow>
                \<lparr>at = start, via = b, advance = n, emitted = e\<rparr>
                  # seg_steps_no_recheck line dict stopwords (start + n))
      else [])"
  by pat_completeness auto
termination
proof (relation "measure (\<lambda>(line, dict, stopwords, start). strlen line - start)")
  show "wf (measure (\<lambda>(line, dict, stopwords, start). strlen line - start))" by simp
next
  fix line :: cstr and dict stopwords :: "cstr list" and start n :: nat
    and b :: branch and e :: "cstr option" and x :: "nat \<times> cstr option"
  assume lt: "start < strlen line"
    and it: "(b, x) = seg_iter_no_recheck line dict stopwords start" and x: "(n, e) = x"
  from it x have "n = fst (snd (seg_iter_no_recheck line dict stopwords start))"
    by (metis fst_conv snd_conv)
  with seg_iter_advance [of line dict stopwords start] have "1 \<le> n"
    by (simp add: seg_iter_no_recheck_advance)
  with lt show "((line, dict, stopwords, start + n), (line, dict, stopwords, start))
      \<in> measure (\<lambda>(line, dict, stopwords, start). strlen line - start)"
    by simp
qed

declare seg_steps_no_recheck.simps [simp del]

section \<open>Bytes and bit patterns\<close>

lemma nat_less_8: "(k::nat) < 8 \<longleftrightarrow> k \<in> {0, 1, 2, 3, 4, 5, 6, 7}"
  by auto

lemma byte_eq_iff: "(a::byte) = b \<longleftrightarrow> (\<forall>n<8. bit a n = bit b n)"
  by (auto simp: bit_eq_iff dest: bit_imp_le_length)

lemma mask_80: "(c::byte) AND 0x80 = 0 \<longleftrightarrow> \<not> bit c 7"
proof -
  have "(0x80 :: byte) = 2 ^ 7" by simp
  then show ?thesis by (simp only: and_exp_eq_0_iff_not_bit)
qed

lemma mask_E0: "(c::byte) AND 0xE0 = 0xC0 \<longleftrightarrow> bit c 7 \<and> bit c 6 \<and> \<not> bit c 5"
  apply (subst byte_eq_iff)
  apply (simp add: nat_less_8 bit_and_iff all_conj_distrib)
  apply (auto simp: bit_numeral_iff numeral_eq_Suc bit_Suc bit_0)
  done

lemma mask_F0:
  "(c::byte) AND 0xF0 = 0xE0 \<longleftrightarrow> bit c 7 \<and> bit c 6 \<and> bit c 5 \<and> \<not> bit c 4"
  apply (subst byte_eq_iff)
  apply (simp add: nat_less_8 bit_and_iff all_conj_distrib)
  apply (auto simp: bit_numeral_iff numeral_eq_Suc bit_Suc bit_0)
  done

lemma mask_C0: "(c::byte) AND 0xC0 = 0x80 \<longleftrightarrow> bit c 7 \<and> \<not> bit c 6"
  apply (subst byte_eq_iff)
  apply (simp add: nat_less_8 bit_and_iff all_conj_distrib)
  apply (auto simp: bit_numeral_iff numeral_eq_Suc bit_Suc bit_0)
  done

lemma byte_uint_eq: "uint (a::byte) = uint b \<longleftrightarrow> a = b"
  by (simp add: word_uint_eq_iff)

lemma byte_uint_0: "uint (a::byte) = 0 \<longleftrightarrow> a = 0"
  using word_uint_eq_iff [of a 0] by simp

section \<open>One iteration of the tokenizer\<close>

lemma dict_match_eq_longest:
  assumes "1 \<le> L" and "L \<le> m" and "start + L \<le> strlen line"
    and "in_dict (strncpy (drop start line) L) dict"
    and "\<forall>L'. L < L' \<and> L' \<le> m \<and> start + L' \<le> strlen line
           \<longrightarrow> \<not> in_dict (strncpy (drop start line) L') dict"
  shows "dict_match line start dict m = Some L"
proof (cases "dict_match line start dict m")
  case None
  from dict_match_None [OF None assms(1-3)] assms(4) show ?thesis by simp
next
  case (Some K)
  note K = dict_match_Some [OF Some]
  have "\<not> K < L"
    using dict_match_longest [OF Some _ assms(2,3)] assms(4) by blast
  moreover have "\<not> L < K"
    using assms(5) K by blast
  ultimately show ?thesis using Some by simp
qed

lemma seg_iter_Punctuation:
  "check_punctuation (drop start line) = (True, n) \<Longrightarrow>
     seg_iter line dict stopwords start = (Punctuation, n, None)"
  by (simp add: seg_iter_def)

lemma seg_iter_Dictionary:
  "\<not> fst (check_punctuation (drop start line)) \<Longrightarrow>
   dict_match line start dict MAX_CHINESE_BYTES = Some L \<Longrightarrow>
     seg_iter line dict stopwords start =
       (Dictionary, L,
        if is_stopword (strncpy (drop start line) L) stopwords then None
        else Some (strncpy (drop start line) L))"
  by (cases "check_punctuation (drop start line)") (simp add: seg_iter_def)

lemma seg_iter_Fallback:
  "\<not> fst (check_punctuation (drop start line)) \<Longrightarrow>
   dict_match line start dict MAX_CHINESE_BYTES = None \<Longrightarrow>
     seg_iter line dict stopwords start =
       (Fallback, get_utf8_char_len (drop start line),
        if \<not> fst (check_punctuation (strncpy (drop start line) (get_utf8_char_len (drop start line))))
           \<and> \<not> is_stopword (strncpy (drop start line) (get_utf8_char_len (drop start line))) stopwords
        then Some (strncpy (drop start line) (get_utf8_char_len (drop start line))) else None)"
  by (cases "check_punctuation (drop start line)") (simp add: seg_iter_def Let_def)

lemma seg_iter_Fallback_only:
  "fst (seg_iter line dict stopwords start) = Fallback \<Longrightarrow>
     \<not> fst (check_punctuation (drop start line)) \<and>
     dict_match line start dict MAX_CHINESE_BYTES = None"
  by (cases "check_punctuation (drop start line)")
     (auto simp: seg_iter_def Let_def split: option.splits bool.splits)

lemma seg_iter_advance_by_branch:
  "(case fst (seg_iter line dict stopwords start) of
      Punctuation \<Rightarrow> fst (snd (seg_iter line dict stopwords start)) \<in> {1, 3}
    | Dictionary \<Rightarrow> 1 \<le> fst (snd (seg_iter line dict stopwords start)) \<and>
        fst (snd (seg_iter line dict stopwords start)) \<le> MAX_CHINESE_BYTES
    | Fallback \<Rightarrow> fst (snd (seg_iter line dict stopwords start))
        = get_utf8_char_len (drop start line))"
proof (cases "check_punctuation (drop start line)")
  case (Pair found punct_len)
  show ?thesis
  proof (cases found)
    case True
    with Pair have cp: "check_punctuation (drop start line) = (True, punct_len)" by simp
    from check_punctuation_len [OF cp] show ?thesis
      by (auto simp: seg_iter_Punctuation [OF cp])
  next
    case False
    with Pair have top: "\<not> fst (check_punctuation (drop start line))" by simp
    show ?thesis
    proof (cases "dict_match line start dict MAX_CHINESE_BYTES")
      case None
      show ?thesis by (simp add: seg_iter_Fallback [OF top None])
    next
      case (Some L)
      from dict_match_Some [OF Some] show ?thesis
        by (simp add: seg_iter_Dictionary [OF top Some])
    qed
  qed
qed

section \<open>The loop and its steps\<close>

lemma seg_steps_Cons:
  "start < strlen line \<Longrightarrow>
     seg_steps line dict stopwords start =
       \<lparr>at = start, via = fst (seg_iter line dict stopwords start),
        advance = fst (snd (seg_iter line dict stopwords start)),
        emitted = snd (snd (seg_iter line dict stopwords start))\<rparr>
       # seg_steps line dict stopwords (start + fst (snd (seg_iter line dict stopwords start)))"
  by (subst seg_steps.simps) (simp split: prod.split)

lemma seg_steps_Nil: "\<not> start < strlen line \<Longrightarrow> seg_steps line dict stopwords start = []"
  by (subst seg_steps.simps) simp

lemma seg_loop_step:
  "start < strlen line \<Longrightarrow>
     seg_loop mem line dict stopwords start (seg_file, g) =
       seg_loop mem line dict stopwords (start + fst (snd (seg_iter line dict stopwords start)))
         (case snd (snd (seg_iter line dict stopwords start)) of
            None \<Rightarrow> (seg_file, g)
          | Some temp \<Rightarrow>
              (fprintf_token seg_file temp,
               add_token_count (fst (mem start)) (snd (mem start)) temp g))"
  by (subst seg_loop.simps) (simp split: prod.split)

lemma seg_loop_end:
  "\<not> start < strlen line \<Longrightarrow> seg_loop mem line dict stopwords start st = st"
  by (cases st) (simp add: seg_loop.simps)

lemma seg_steps_hd:
  "seg_steps line dict stopwords start \<noteq> [] \<Longrightarrow> at (hd (seg_steps line dict stopwords start)) = start"
proof (cases "start < strlen line")
  case True
  then show ?thesis by (simp add: seg_steps_Cons [OF True])
next
  case False
  assume "seg_steps line dict stopwords start \<noteq> []"
  with False show ?thesis by (simp add: seg_steps_Nil)
qed

lemma seg_steps_progress:
  "length (seg_steps line dict stopwords start) \<le> strlen line - start \<and>
   (\<forall>s \<in> set (seg_steps line dict stopwords start). at s < strlen line \<and> at s < cursor_after s) \<and>
   successively (\<lambda>s t. at t = cursor_after s) (seg_steps line dict stopwords start)"
proof (induction "strlen line - start" arbitrary: start rule: less_induct)
  case less
  show ?case
  proof (cases "start < strlen line")
    case False
    then show ?thesis by (simp add: seg_steps_Nil)
  next
    case True
    let ?n = "fst (snd (seg_iter line dict stopwords start))"
    have n: "1 \<le> ?n" by (rule seg_iter_advance)
    with True have "strlen line - (start + ?n) < strlen line - start" by simp
    from less [OF this] have
      len: "length (seg_steps line dict stopwords (start + ?n)) \<le> strlen line - (start + ?n)"
      and each: "\<forall>s \<in> set (seg_steps line dict stopwords (start + ?n)).
                   at s < strlen line \<and> at s < cursor_after s"
      and succ: "successively (\<lambda>s t. at t = cursor_after s) (seg_steps line dict stopwords (start + ?n))"
      by simp_all
    have hd: "seg_steps line dict stopwords (start + ?n) \<noteq> [] \<Longrightarrow>
        at (hd (seg_steps line dict stopwords (start + ?n))) = start + ?n"
      by (rule seg_steps_hd)
    from True n len have "length (seg_steps line dict stopwords start) \<le> strlen line - start"
      by (simp add: seg_steps_Cons [OF True])
    moreover from True n each
    have "\<forall>s \<in> set (seg_steps line dict stopwords start). at s < strlen line \<and> at s < cursor_after s"
      by (simp add: seg_steps_Cons [OF True] cursor_after_def)
    moreover from True succ hd
    have "successively (\<lambda>s t. at t = cursor_after s) (seg_steps line dict stopwords start)"
      by (cases "seg_steps line dict stopwords (start + ?n)")
         (simp_all add: seg_steps_Cons [OF True] cursor_after_def)
    ultimately show ?thesis by blast
  qed
qed

lemma seg_loop_run_steps:
  "seg_loop mem line dict stopwords start st = run_steps mem (seg_steps line dict stopwords start) st"
proof (induction "strlen line - start" arbitrary: start st rule: less_induct)
  case less
  obtain seg_file g where st: "st = (seg_file, g)" by (cases st)
  show ?case
  proof (cases "start < strlen line")
    case False
    then show ?thesis by (simp add: seg_steps_Nil seg_loop_end)
  next
    case True
    let ?n = "fst (snd (seg_iter line dict stopwords start))"
    have "1 \<le> ?n" by (rule seg_iter_advance)
    with True have "strlen line - (start + ?n) < strlen line - start" by simp
    from less [OF this] show ?thesis
      unfolding st
      by (simp add: seg_loop_step [OF True] seg_steps_Cons [OF True] split: option.split)
  qed
qed

lemma seg_steps_member:
  "s \<in> set (seg_steps line dict stopwords start) \<Longrightarrow>
     start \<le> at s \<and> at s < strlen line \<and>
     (via s, advance s, emitted s) = seg_iter line dict stopwords (at s)"
proof (induction "strlen line - start" arbitrary: start rule: less_induct)
  case less
  show ?case
  proof (cases "start < strlen line")
    case False
    with less.prems show ?thesis by (simp add: seg_steps_Nil)
  next
    case True
    let ?n = "fst (snd (seg_iter line dict stopwords start))"
    have "1 \<le> ?n" by (rule seg_iter_advance)
    with True have d: "strlen line - (start + ?n) < strlen line - start" by simp
    from less.prems consider
      "s = \<lparr>at = start, via = fst (seg_iter line dict stopwords start), advance = ?n,
            emitted = snd (snd (seg_iter line dict stopwords start))\<rparr>"
      | "s \<in> set (seg_steps line dict stopwords (start + ?n))"
      by (auto simp: seg_steps_Cons [OF True])
    then show ?thesis
    proof cases
      case 1
      with True show ?thesis by simp
    next
      case 2
      from less.hyps [OF d 2] show ?thesis by simp
    qed
  qed
qed

section \<open>Recording tokens\<close>

lemma strcmp_refl: "strcmp s s = 0"
  by (induction s) simp_all













section \<open>What a match of the punctuation table says about the text\<close>

lemma strncmp_Nil_Cons:
  "c \<noteq> 0 \<Longrightarrow> strncmp [] (c # p) (Suc n) \<noteq> 0"
  by (simp add: peek_def byte_uint_0)

lemma strncmp_Cons_Cons:
  "c \<noteq> 0 \<Longrightarrow> strncmp (x # xs) (c # p) (Suc n) = 0 \<longleftrightarrow> x = c \<and> strncmp xs p n = 0"
  by (auto simp: peek_def byte_uint_eq)

text \<open>
  Where the length does not exceed the pattern and the compared bytes of the pattern hold
  no NUL, \<open>strncmp\<close> is 0 exactly when the text begins with these bytes.
\<close>

lemma strncmp_prefix:
  "n \<le> length p \<Longrightarrow> 0 \<notin> set (take n p) \<Longrightarrow> strncmp s p n = 0 \<longleftrightarrow> take n s = take n p"
proof (induction n arbitrary: s p)
  case 0
  then show ?case by simp
next
  case (Suc n)
  from Suc.prems(1) obtain c p' where p: "p = c # p'" by (cases p) auto
  with Suc.prems have c: "c \<noteq> 0" and n: "n \<le> length p'" and z: "0 \<notin> set (take n p')"
    by auto
  show ?case
  proof (cases s)
    case Nil
    with c show ?thesis using strncmp_Nil_Cons [OF c, of p' n]
      by (simp del: strncmp.simps add: p)
  next
    case (Cons x xs)
    with Suc.IH [OF n z, of xs] c show ?thesis
      by (simp del: strncmp.simps add: p strncmp_Cons_Cons [OF c])
  qed
qed

text \<open>
  An entry with a one-byte pattern and 3 as length: \<open>strncmp\<close> compares the byte and
  then the terminator of the pattern, so it matches a text that is this byte alone.
\<close>

lemma strncmp_one_of_three:
  "q \<noteq> 0 \<Longrightarrow> strncmp s [q] 3 = 0 \<longleftrightarrow> peek s = q \<and> peek (tl s) = 0"
  by (auto simp: numeral_3_eq_3 peek_def byte_uint_eq byte_uint_0 split: list.splits)

lemma PUNCTUATIONS_shape:
  "p \<in> set PUNCTUATIONS \<Longrightarrow> regular p \<or> (punct p = [0x27] \<and> bytes p = 3)"
  by (auto simp: PUNCTUATIONS_def regular_def)

lemma check_punctuation_loop_found:
  "p \<in> set ps \<Longrightarrow> strncmp str (punct p) (bytes p) = 0 \<Longrightarrow> fst (check_punctuation_loop ps str)"
  by (induction ps) auto

lemma peek_tl_0: "0 \<notin> set s \<Longrightarrow> peek s = q \<Longrightarrow> q \<noteq> 0 \<Longrightarrow> peek (tl s) = 0 \<Longrightarrow> s = [q]"
  by (cases s; cases "tl s") (auto simp: peek_def)

text \<open>
  A match at the top of the loop, on text without NUL: either the text begins with the
  compared bytes of the entry's pattern and the advance is their number, or the text is a
  lone ASCII apostrophe and the advance is 3.
\<close>

lemma check_punctuation_match:
  assumes "check_punctuation s = (True, n)" and "0 \<notin> set s"
  shows "(\<exists>p \<in> set PUNCTUATIONS. regular p \<and> bytes p = n \<and> take n s = take n (punct p))
         \<or> (n = 3 \<and> s = [0x27])"
proof -
  from assms(1) obtain p where p: "p \<in> set PUNCTUATIONS" and n: "n = bytes p"
    and m: "strncmp s (punct p) (bytes p) = 0"
    unfolding check_punctuation_def by (blast dest: check_punctuation_loop_True)
  from PUNCTUATIONS_shape [OF p] show ?thesis
  proof (elim disjE conjE)
    assume r: "regular p"
    then have "take (bytes p) s = take (bytes p) (punct p)"
      using m strncmp_prefix [of "bytes p" "punct p" s] by (simp add: regular_def)
    with p n r show ?thesis by blast
  next
    assume "punct p = [0x27]" and b: "bytes p = 3"
    with m have "peek s = 0x27 \<and> peek (tl s) = 0"
      by (simp add: strncmp_one_of_three)
    with assms(2) have "s = [0x27]" by (intro peek_tl_0) simp_all
    with n b show ?thesis by simp
  qed
qed

section \<open>Spans of the steps\<close>






section \<open>The re-check and the variant without it\<close>

lemma seg_steps_no_recheck_Cons:
  "start < strlen line \<Longrightarrow>
     seg_steps_no_recheck line dict stopwords start =
       \<lparr>at = start, via = fst (seg_iter_no_recheck line dict stopwords start),
        advance = fst (snd (seg_iter_no_recheck line dict stopwords start)),
        emitted = snd (snd (seg_iter_no_recheck line dict stopwords start))\<rparr>
       # seg_steps_no_recheck line dict stopwords
           (start + fst (snd (seg_iter_no_recheck line dict stopwords start)))"
  by (subst seg_steps_no_recheck.simps) (simp split: prod.split)

lemma seg_steps_no_recheck_Nil:
  "\<not> start < strlen line \<Longrightarrow> seg_steps_no_recheck line dict stopwords start = []"
  by (subst seg_steps_no_recheck.simps) simp

lemma peek_take: "1 \<le> k \<Longrightarrow> peek (take k s) = peek s"
  by (cases s; cases k) (simp_all add: peek_def)

text \<open>
  An entry of the table that matches the extracted codepoint matches the text it was
  extracted from, with one exception. Where the length of the entry does not exceed its
  pattern, the match of the buffer is a match of that many bytes, which the text has at
  the cursor too: this holds for the entry with the pattern \<open>, 3}, {\<close> as for the others.
  The entries with the apostrophe as pattern and 3 as length match the lone apostrophe
  that \<open>strncpy\<close> leaves in the buffer, and nothing in the table matches text that goes on
  after an apostrophe.
\<close>

lemma recheck_fails:
  assumes top: "\<not> fst (check_punctuation s)" and ap: "peek s \<noteq> 0x27" and k: "1 \<le> k"
  shows "\<not> fst (check_punctuation (strncpy s k))"
proof
  assume "fst (check_punctuation (strncpy s k))"
  then obtain n where "check_punctuation (take k s) = (True, n)"
    by (cases "check_punctuation (take k s)") (simp add: strncpy_def)
  then obtain p where p: "p \<in> set PUNCTUATIONS"
    and m: "strncmp (take k s) (punct p) (bytes p) = 0"
    unfolding check_punctuation_def by (blast dest: check_punctuation_loop_True)
  from PUNCTUATIONS_shape [OF p] show False
  proof (elim disjE conjE)
    assume r: "regular p"
    then have len: "bytes p \<le> length (punct p)"
      and nul: "0 \<notin> set (take (bytes p) (punct p))"
      by (simp_all add: regular_def)
    from m strncmp_prefix [OF len nul, of "take k s"]
    have t: "take (min (bytes p) k) s = take (bytes p) (punct p)" by simp
    then have "length (take (min (bytes p) k) s) = bytes p" using len by simp
    then have "min (bytes p) k = bytes p" by (simp add: min_def split: if_splits)
    with t have "take (bytes p) s = take (bytes p) (punct p)" by simp
    with strncmp_prefix [OF len nul, of s] have "strncmp s (punct p) (bytes p) = 0" by simp
    from check_punctuation_loop_found [OF p this] top show False
      by (simp add: check_punctuation_def)
  next
    assume "punct p = [0x27]" and "bytes p = 3"
    with m have "peek (take k s) = 0x27" by (simp add: strncmp_one_of_three)
    with k ap show False by (simp add: peek_take)
  qed
qed

lemma seg_iter_no_recheck_eq:
  assumes "peek (drop start line) \<noteq> 0x27"
  shows "seg_iter_no_recheck line dict stopwords start = seg_iter line dict stopwords start"
proof (cases "fst (check_punctuation (drop start line))")
  case True
  then show ?thesis
    by (cases "check_punctuation (drop start line)")
       (simp add: seg_iter_no_recheck_def seg_iter_def)
next
  case False
  have "1 \<le> get_utf8_char_len (drop start line)"
    using get_utf8_char_len_range [of "drop start line"] by auto
  from recheck_fails [OF False assms this] False show ?thesis
    by (cases "check_punctuation (drop start line)")
       (simp add: seg_iter_no_recheck_def seg_iter_def Let_def split: option.split)
qed

lemma peek_drop_in_set: "peek (drop start line) \<noteq> 0 \<Longrightarrow> peek (drop start line) \<in> set line"
proof (cases "drop start line")
  case Nil
  assume "peek (drop start line) \<noteq> 0"
  with Nil show ?thesis by (simp add: peek_def)
next
  case (Cons a list)
  then have "a \<in> set (drop start line)" by simp
  then have "a \<in> set line" by (rule in_set_dropD)
  with Cons show ?thesis by (simp add: peek_def)
qed

lemma seg_steps_no_recheck_eq:
  assumes "0x27 \<notin> set line"
  shows "seg_steps_no_recheck line dict stopwords start = seg_steps line dict stopwords start"
proof (induction "strlen line - start" arbitrary: start rule: less_induct)
  case less
  show ?case
  proof (cases "start < strlen line")
    case False
    then show ?thesis by (simp add: seg_steps_Nil seg_steps_no_recheck_Nil)
  next
    case True
    have "peek (drop start line) \<noteq> 0x27"
      using peek_drop_in_set [of start line] assms by auto
    then have eq: "seg_iter_no_recheck line dict stopwords start = seg_iter line dict stopwords start"
      by (rule seg_iter_no_recheck_eq)
    let ?n = "fst (snd (seg_iter line dict stopwords start))"
    have "1 \<le> ?n" by (rule seg_iter_advance)
    with True have "strlen line - (start + ?n) < strlen line - start" by simp
    from less [OF this] show ?thesis
      by (simp add: seg_steps_Cons [OF True] seg_steps_no_recheck_Cons [OF True] eq)
  qed
qed

section \<open>Steps on well-formed text\<close>

lemma is_lead_not_cont: "is_lead b \<Longrightarrow> \<not> is_cont b"
  unfolding is_lead_def is_cont_def mask_80 mask_E0 mask_F0 mask_C0 by blast

lemma is_cont_not_0: "is_cont b \<Longrightarrow> b \<noteq> 0"
  unfolding is_cont_def by auto

lemma get_utf8_char_len_Cons: "get_utf8_char_len (b # bs) = get_utf8_char_len [b]"
  by (simp add: get_utf8_char_len_def peek_def)

lemma utf8_ok_Cons:
  "utf8_ok (b # bs) \<Longrightarrow> n = get_utf8_char_len [b] \<Longrightarrow>
     is_lead b \<and> 1 \<le> n \<and> n - 1 \<le> length bs \<and> list_all is_cont (take (n - 1) bs) \<and>
     utf8_ok (drop (n - 1) bs)"
  using get_utf8_char_len_range [of "[b]"] by (auto simp: utf8_ok.simps(2))

lemma utf8_ok_ConsI:
  "is_lead b \<Longrightarrow> n = get_utf8_char_len [b] \<Longrightarrow> n - 1 \<le> length bs \<Longrightarrow>
   list_all is_cont (take (n - 1) bs) \<Longrightarrow> utf8_ok (drop (n - 1) bs) \<Longrightarrow> utf8_ok (b # bs)"
  using get_utf8_char_len_range [of "[b]"] by (auto simp: utf8_ok.simps(2))

lemma utf8_ok_no_NUL: "utf8_ok s \<Longrightarrow> 0 \<notin> set s"
proof (induction s rule: utf8_ok.induct)
  case 1
  then show ?case by simp
next
  case (2 b bs)
  define k where "k = get_utf8_char_len [b] - 1"
  from utf8_ok_Cons [OF "2.prems" refl]
  have lead: "is_lead b" and conts: "list_all is_cont (take k bs)"
    and rest: "utf8_ok (drop k bs)"
    by (simp_all add: k_def)
  from "2.IH" [OF rest [unfolded k_def]] have "0 \<notin> set (drop k bs)"
    by (simp add: k_def)
  moreover from conts have "0 \<notin> set (take k bs)"
    by (auto simp: list_all_iff dest: is_cont_not_0)
  moreover have "set bs = set (take k bs) \<union> set (drop k bs)"
    by (metis append_take_drop_id set_append)
  ultimately show ?case using lead by (simp add: is_lead_def)
qed

lemma utf8_ok_appendD: "utf8_ok a \<Longrightarrow> utf8_ok (a @ c) \<Longrightarrow> utf8_ok c"
proof (induction a rule: utf8_ok.induct)
  case 1
  then show ?case by simp
next
  case (2 b bs)
  define k where "k = get_utf8_char_len [b] - 1"
  from utf8_ok_Cons [OF "2.prems"(1) refl]
  have fit: "k \<le> length bs" and rest: "utf8_ok (drop k bs)"
    by (simp_all add: k_def)
  from "2.prems"(2) have "utf8_ok (b # (bs @ c))" by simp
  from utf8_ok_Cons [OF this refl] have "utf8_ok (drop k (bs @ c))"
    by (simp add: k_def)
  with fit have "utf8_ok (drop k bs @ c)" by simp
  with "2.IH" rest show ?case by (simp add: k_def)
qed

lemma utf8_ok_first:
  assumes "utf8_ok s" and "s \<noteq> []"
  shows "get_utf8_char_len s \<le> length s \<and> utf8_ok (take (get_utf8_char_len s) s) \<and>
         utf8_ok (drop (get_utf8_char_len s) s)"
proof -
  from assms(2) obtain b bs where s: "s = b # bs" by (cases s) auto
  define n where "n = get_utf8_char_len [b]"
  have ns: "get_utf8_char_len (b # bs) = n"
    unfolding n_def by (rule get_utf8_char_len_Cons)
  from utf8_ok_Cons [OF assms(1) [unfolded s] n_def]
  have lead: "is_lead b" and n1: "1 \<le> n" and fit: "n - 1 \<le> length bs"
    and conts: "list_all is_cont (take (n - 1) bs)" and rest: "utf8_ok (drop (n - 1) bs)"
    by simp_all
  from n1 have tk: "take n (b # bs) = b # take (n - 1) bs"
    by (cases n) simp_all
  from n1 have dr: "drop n (b # bs) = drop (n - 1) bs"
    by (cases n) simp_all
  have "utf8_ok (b # take (n - 1) bs)"
    by (rule utf8_ok_ConsI [OF lead n_def]) (use fit conts in simp_all)
  with fit n1 rest show ?thesis by (simp add: s ns tk dr)
qed

lemma utf8_ok_boundary:
  "utf8_ok (drop i line) \<Longrightarrow> i \<le> length line \<Longrightarrow> is_char_boundary line i"
proof (cases "i = length line")
  case True
  then show ?thesis by (simp add: is_char_boundary_def)
next
  case False
  assume ok: "utf8_ok (drop i line)" and "i \<le> length line"
  with False have lt: "i < length line" by simp
  then have "drop i line = line ! i # drop (Suc i) line"
    by (simp add: Cons_nth_drop_Suc)
  with ok have "is_lead (line ! i)" by (simp add: utf8_ok.simps(2))
  with lt show ?thesis by (simp add: is_char_boundary_def is_lead_not_cont)
qed

lemma strcmp_eq: "strcmp a b = 0 \<Longrightarrow> 0 \<notin> set a \<Longrightarrow> 0 \<notin> set b \<Longrightarrow> a = b"
  by (induction a b rule: strcmp.induct) (auto simp: byte_uint_eq byte_uint_0 split: if_splits)

lemma in_dict_member: "in_dict temp dict \<Longrightarrow> \<exists>d \<in> set dict. strcmp temp d = 0"
  by (induction dict) (auto split: if_splits)

text \<open>
  On strings without NUL \<open>strcmp\<close> is 0 for equal strings only, so the two lookups are
  list membership.
\<close>

lemma in_dict_iff:
  "0 \<notin> set temp \<Longrightarrow> \<forall>d \<in> set dict. 0 \<notin> set d \<Longrightarrow> in_dict temp dict \<longleftrightarrow> temp \<in> set dict"
  by (induction dict) (auto simp: strcmp_refl dest: strcmp_eq)

lemma is_stopword_iff:
  "0 \<notin> set token \<Longrightarrow> \<forall>w \<in> set stopwords. 0 \<notin> set w \<Longrightarrow>
     is_stopword token stopwords \<longleftrightarrow> token \<in> set stopwords"
  by (induction stopwords) (auto simp: strcmp_refl dest: strcmp_eq)

lemma take_drop_no_NUL: "0 \<notin> set line \<Longrightarrow> 0 \<notin> set (take n (drop start line))"
  by (auto dest: in_set_takeD in_set_dropD)

lemma regular_utf8_ok:
  "p \<in> set PUNCTUATIONS \<Longrightarrow> regular p \<Longrightarrow> utf8_ok (take (bytes p) (punct p))"
  by (auto simp: PUNCTUATIONS_def regular_def utf8_ok.simps(2) is_lead_def is_cont_def
      get_utf8_char_len_def peek_def)

text \<open>One iteration on well-formed text with a well-formed dictionary.\<close>

lemma utf8_ok_drop_3: "s = [q] \<Longrightarrow> utf8_ok (drop 3 s)"
  by simp

lemma seg_iter_utf8_ok:
  assumes ok: "utf8_ok (drop start line)" and lt: "start < strlen line"
    and dict: "\<forall>d \<in> set dict. utf8_ok d"
  shows "utf8_ok (drop (start + fst (snd (seg_iter line dict stopwords start))) line) \<and>
         (\<forall>tok. snd (snd (seg_iter line dict stopwords start)) = Some tok \<longrightarrow>
            utf8_ok tok \<and> length tok = fst (snd (seg_iter line dict stopwords start)) \<and>
            start + length tok \<le> strlen line)"
proof -
  let ?s = "drop start line"
  from lt have ne: "?s \<noteq> []" by (simp add: strlen_def)
  from ok have nul: "0 \<notin> set ?s" by (rule utf8_ok_no_NUL)
  have dd: "drop n ?s = drop (start + n) line" for n
    by (simp add: add.commute)
  have split: "utf8_ok (take n ?s @ drop n ?s)" for n
    using ok by (simp only: append_take_drop_id)
  show ?thesis
  proof (cases "check_punctuation ?s")
    case (Pair found punct_len)
    show ?thesis
    proof (cases found)
      case True
      with Pair have cp: "check_punctuation ?s = (True, punct_len)" by simp
      have "utf8_ok (drop punct_len ?s)"
        using check_punctuation_match [OF cp nul]
      proof
        assume "\<exists>p \<in> set PUNCTUATIONS. regular p \<and> bytes p = punct_len
            \<and> take punct_len ?s = take punct_len (punct p)"
        then obtain p where p: "p \<in> set PUNCTUATIONS" and r: "regular p"
          and b: "bytes p = punct_len"
          and t: "take punct_len ?s = take punct_len (punct p)"
          by blast
        from regular_utf8_ok [OF p r] b have "utf8_ok (take punct_len (punct p))" by simp
        from this split [of punct_len] show ?thesis
          unfolding t by (rule utf8_ok_appendD)
      next
        assume "punct_len = 3 \<and> ?s = [0x27]"
        then show ?thesis by (auto simp del: drop_drop intro: utf8_ok_drop_3)
      qed
      then have "utf8_ok (drop (start + punct_len) line)" by (simp only: dd)
      then show ?thesis by (simp add: seg_iter_Punctuation [OF cp])
    next
      case False
      with Pair have top: "\<not> fst (check_punctuation ?s)" by simp
      show ?thesis
      proof (cases "dict_match line start dict MAX_CHINESE_BYTES")
        case None
        let ?n = "get_utf8_char_len ?s"
        from utf8_ok_first [OF ok ne] have fit: "?n \<le> length ?s"
          and okt: "utf8_ok (take ?n ?s)" and "utf8_ok (drop ?n ?s)"
          by simp_all
        then have rest: "utf8_ok (drop (start + ?n) line)" by (simp only: dd)
        from fit have len: "length (take ?n ?s) = ?n" by simp
        from fit lt have "start + ?n \<le> strlen line" by (simp add: strlen_def)
        with rest okt len show ?thesis
          by (simp add: seg_iter_Fallback [OF top None] strncpy_def del: drop_drop length_take)
      next
        case (Some L)
        let ?tok = "take L ?s"
        from dict_match_Some [OF Some] have fit: "start + L \<le> strlen line"
          and ind: "in_dict ?tok dict"
          by (simp_all add: strncpy_def)
        from in_dict_member [OF ind] obtain d where d: "d \<in> set dict"
          and eq: "strcmp ?tok d = 0"
          by blast
        from dict d have okd: "utf8_ok d" by simp
        from nul have "0 \<notin> set ?tok" by (auto dest: in_set_takeD)
        from strcmp_eq [OF eq this utf8_ok_no_NUL [OF okd]] okd have okt: "utf8_ok ?tok" by simp
        from okt split [of L] have "utf8_ok (drop L ?s)" by (rule utf8_ok_appendD)
        then have rest: "utf8_ok (drop (start + L) line)" by (simp only: dd)
        from fit have len: "length ?tok = L" by (simp add: strlen_def)
        from rest okt len fit show ?thesis
          by (simp add: seg_iter_Dictionary [OF top Some] strncpy_def del: drop_drop length_take)
      qed
    qed
  qed
qed

lemma seg_steps_utf8_ok:
  assumes dict: "\<forall>d \<in> set dict. utf8_ok d"
  shows "utf8_ok (drop start line) \<Longrightarrow> s \<in> set (seg_steps line dict stopwords start) \<Longrightarrow>
     utf8_ok (drop (at s) line) \<and>
     (\<forall>tok. emitted s = Some tok \<longrightarrow>
        utf8_ok tok \<and> utf8_ok (drop (at s + length tok) line) \<and> at s + length tok \<le> strlen line)"
proof (induction "strlen line - start" arbitrary: start rule: less_induct)
  case less
  show ?case
  proof (cases "start < strlen line")
    case False
    with less.prems show ?thesis by (simp add: seg_steps_Nil)
  next
    case True
    let ?it = "seg_iter line dict stopwords start"
    let ?n = "fst (snd ?it)"
    have "1 \<le> ?n" by (rule seg_iter_advance)
    with True have d: "strlen line - (start + ?n) < strlen line - start" by simp
    note step = seg_iter_utf8_ok [OF less.prems(1) True dict, of stopwords]
    from less.prems(2) consider
      "s = \<lparr>at = start, via = fst ?it, advance = ?n, emitted = snd (snd ?it)\<rparr>"
      | "s \<in> set (seg_steps line dict stopwords (start + ?n))"
      by (auto simp: seg_steps_Cons [OF True])
    then show ?thesis
    proof cases
      case 1
      with step less.prems(1) show ?thesis by auto
    next
      case 2
      from step have "utf8_ok (drop (start + ?n) line)" by simp
      from less.hyps [OF d this 2] show ?thesis .
    qed
  qed
qed

lemma take_length_take: "take (length (take k s)) s = take k s"
  by (simp add: min_def)

lemma seg_iter_sliced:
  assumes "start < strlen line"
    and "snd (snd (seg_iter line dict stopwords start)) = Some tok"
  shows "tok = take (length tok) (drop start line) \<and> 1 \<le> length tok \<and> length tok \<le> 21"
proof -
  let ?s = "drop start line"
  from assms(1) have len: "1 \<le> length ?s" by (simp add: strlen_def)
  have "\<exists>k. 1 \<le> k \<and> k \<le> 21 \<and> tok = take k ?s"
  proof (cases "check_punctuation ?s")
    case (Pair found punct_len)
    show ?thesis
    proof (cases found)
      case True
      with Pair assms(2) show ?thesis by (simp add: seg_iter_def)
    next
      case False
      with Pair have top: "\<not> fst (check_punctuation ?s)" by simp
      show ?thesis
      proof (cases "dict_match line start dict MAX_CHINESE_BYTES")
        case None
        have "get_utf8_char_len ?s \<in> {1, 2, 3}" by (rule get_utf8_char_len_range)
        then have "1 \<le> get_utf8_char_len ?s" "get_utf8_char_len ?s \<le> 21" by auto
        moreover from assms(2) have "tok = take (get_utf8_char_len ?s) ?s"
          by (auto simp: seg_iter_Fallback [OF top None] strncpy_def split: if_splits)
        ultimately show ?thesis by blast
      next
        case (Some L)
        from dict_match_Some [OF Some] have "1 \<le> L" "L \<le> 21"
          by (simp_all add: MAX_CHINESE_BYTES_def)
        moreover from assms(2) have "tok = take L ?s"
          by (auto simp: seg_iter_Dictionary [OF top Some] strncpy_def split: if_splits)
        ultimately show ?thesis by blast
      qed
    qed
  qed
  then obtain k where k: "1 \<le> k" "k \<le> 21" and tok: "tok = take k ?s" by blast
  from k len have "1 \<le> length tok" "length tok \<le> 21" by (simp_all add: tok)
  moreover have "tok = take (length tok) ?s" unfolding tok by (rule take_length_take [symmetric])
  ultimately show ?thesis by simp
qed

text \<open>
  Well-formed text satisfies the hypotheses of the coverage theorem: it has no NUL, and
  at every position the codepoint length the scanner reads fits in the line (the byte
  there is a lead byte with its continuation bytes after it, or a continuation byte,
  for which the scanner gives 1).
\<close>

lemma cont_char_len: "is_cont b \<Longrightarrow> get_utf8_char_len (b # bs) = 1"
  unfolding is_cont_def get_utf8_char_len_def peek_def list.case mask_80 mask_E0 mask_F0 mask_C0
  by simp

lemma utf8_ok_positions:
  "utf8_ok line \<Longrightarrow> i < length line \<Longrightarrow> is_cont (line ! i) \<or> utf8_ok (drop i line)"
proof (induction line arbitrary: i rule: utf8_ok.induct)
  case 1
  then show ?case by simp
next
  case (2 b bs)
  define k where "k = get_utf8_char_len [b] - 1"
  from utf8_ok_Cons [OF "2.prems"(1) refl]
  have fit: "k \<le> length bs" and conts: "list_all is_cont (take k bs)"
    and rest: "utf8_ok (drop k bs)"
    by (simp_all add: k_def)
  consider "i = 0" | "0 < i" "i \<le> k" | "k < i" by linarith
  then show ?case
  proof cases
    case 1
    with "2.prems"(1) show ?thesis by simp
  next
    case 2
    then have "i - 1 < length (take k bs)" using fit by simp
    then have "take k bs ! (i - 1) \<in> set (take k bs)" by (rule nth_mem)
    with conts have "is_cont (take k bs ! (i - 1))" by (simp add: list_all_iff)
    with 2 show ?thesis by (cases i) simp_all
  next
    case 3
    define j where "j = i - 1 - k"
    from 3 have i: "i = Suc (k + j)" by (simp add: j_def)
    with "2.prems"(2) have j: "j < length (drop k bs)" by simp
    from "2.IH" [OF rest [unfolded k_def] j [unfolded k_def]]
    have "is_cont (drop k bs ! j) \<or> utf8_ok (drop j (drop k bs))" by (simp add: k_def)
    moreover from fit j have "drop k bs ! j = (b # bs) ! i" by (simp add: i)
    moreover have "drop j (drop k bs) = drop i (b # bs)" by (simp add: i add.commute)
    ultimately show ?thesis by simp
  qed
qed

lemma utf8_ok_fits: "utf8_ok line \<Longrightarrow> 0 \<notin> set line \<and> no_truncated_codepoint line"
proof
  assume ok: "utf8_ok line"
  then show "0 \<notin> set line" by (rule utf8_ok_no_NUL)
  have "i + get_utf8_char_len (drop i line) \<le> strlen line" if i: "i < strlen line" for i
  proof -
    from i have lt: "i < length line" by (simp add: strlen_def)
    then have dr: "drop i line = line ! i # drop (Suc i) line"
      by (simp add: Cons_nth_drop_Suc)
    from utf8_ok_positions [OF ok lt] show ?thesis
    proof
      assume "is_cont (line ! i)"
      then have "get_utf8_char_len (drop i line) = 1"
        unfolding dr by (rule cont_char_len)
      with i show ?thesis by simp
    next
      assume o: "utf8_ok (drop i line)"
      from lt have "drop i line \<noteq> []" by simp
      from utf8_ok_first [OF o this] have "get_utf8_char_len (drop i line) \<le> length (drop i line)"
        by simp
      with lt show ?thesis by (simp add: strlen_def)
    qed
  qed
  then show "no_truncated_codepoint line"
    by (simp add: no_truncated_codepoint_def list_all_iff)
qed

section \<open>The properties of the specification\<close>

text \<open>
  Claim C1. The line, the dictionary words and the stopwords are C strings, so none holds
  a NUL byte; the substring of \<open>L\<close> bytes at the cursor is \<open>take L (drop start line)\<close>.
  At a cursor position where the punctuation check fails, the candidate lengths are tried
  from 21 down to 1, a length that does not fit in the line is skipped, and the first hit
  ends the search: when \<open>L\<close> is a length between 1 and 21 that fits and whose substring
  is a member of the dictionary, and no greater length that fits has its substring in
  the dictionary, the iteration takes the dictionary branch and consumes exactly \<open>L\<close>
  bytes. The substring is emitted unless it is a member of the stopwords.

  The instances below have the dictionary of the two words U+4E2D U+56FD (6 bytes) and
  U+4E2D U+56FD U+4EBA (9 bytes) and no stopwords. On the 12-byte line U+4E2D U+56FD
  U+4EBA U+6C11 the first iteration consumes 9 bytes, not 6 and not 12, and emits the
  9-byte word; the rest is one fallback step. On the 9-byte word as line there is one
  iteration and one token, the 9-byte word.
\<close>

theorem longest_match_wins:
  assumes "0 \<notin> set line" and "\<forall>d \<in> set dict. 0 \<notin> set d"
    and "\<forall>w \<in> set stopwords. 0 \<notin> set w"
    and "start < strlen line"
    and "\<not> fst (check_punctuation (drop start line))"
    and "1 \<le> L" and "L \<le> MAX_CHINESE_BYTES" and "start + L \<le> strlen line"
    and "take L (drop start line) \<in> set dict"
    and "\<forall>L'. L < L' \<and> L' \<le> MAX_CHINESE_BYTES \<and> start + L' \<le> strlen line
           \<longrightarrow> take L' (drop start line) \<notin> set dict"
  shows "seg_iter line dict stopwords start =
           (Dictionary, L,
            if take L (drop start line) \<in> set stopwords then None
            else Some (take L (drop start line)))"
proof -
  note nul = take_drop_no_NUL [OF assms(1)]
  have mem: "in_dict (strncpy (drop start line) n) dict \<longleftrightarrow> take n (drop start line) \<in> set dict"
    for n
    unfolding strncpy_def by (rule in_dict_iff [OF nul assms(2)])
  have stop: "is_stopword (strncpy (drop start line) n) stopwords
      \<longleftrightarrow> take n (drop start line) \<in> set stopwords" for n
    unfolding strncpy_def by (rule is_stopword_iff [OF nul assms(3)])
  from assms(9) have h6: "in_dict (strncpy (drop start line) L) dict"
    by (simp only: mem)
  from assms(10) have h7: "\<forall>L'. L < L' \<and> L' \<le> MAX_CHINESE_BYTES \<and> start + L' \<le> strlen line
      \<longrightarrow> \<not> in_dict (strncpy (drop start line) L') dict"
    by (simp only: mem)
  have "seg_iter line dict stopwords start =
      (Dictionary, L,
       if is_stopword (strncpy (drop start line) L) stopwords then None
       else Some (strncpy (drop start line) L))"
    by (rule seg_iter_Dictionary [OF assms(5) dict_match_eq_longest [OF assms(6-8) h6 h7]])
  then show ?thesis by (simp only: stop) (simp only: strncpy_def)
qed

theorem longest_match_wins_witness:
  "seg_iter [0xE4,0xB8,0xAD,0xE5,0x9B,0xBD,0xE4,0xBA,0xBA,0xE6,0xB0,0x91]
       [[0xE4,0xB8,0xAD,0xE5,0x9B,0xBD], [0xE4,0xB8,0xAD,0xE5,0x9B,0xBD,0xE4,0xBA,0xBA]] [] 0
     = (Dictionary, 9, Some [0xE4,0xB8,0xAD,0xE5,0x9B,0xBD,0xE4,0xBA,0xBA]) \<and>
   seg_steps [0xE4,0xB8,0xAD,0xE5,0x9B,0xBD,0xE4,0xBA,0xBA,0xE6,0xB0,0x91]
       [[0xE4,0xB8,0xAD,0xE5,0x9B,0xBD], [0xE4,0xB8,0xAD,0xE5,0x9B,0xBD,0xE4,0xBA,0xBA]] [] 0
     = [\<lparr>at = 0, via = Dictionary, advance = 9,
         emitted = Some [0xE4,0xB8,0xAD,0xE5,0x9B,0xBD,0xE4,0xBA,0xBA]\<rparr>,
        \<lparr>at = 9, via = Fallback, advance = 3, emitted = Some [0xE6,0xB0,0x91]\<rparr>] \<and>
   seg_steps [0xE4,0xB8,0xAD,0xE5,0x9B,0xBD,0xE4,0xBA,0xBA]
       [[0xE4,0xB8,0xAD,0xE5,0x9B,0xBD], [0xE4,0xB8,0xAD,0xE5,0x9B,0xBD,0xE4,0xBA,0xBA]] [] 0
     = [\<lparr>at = 0, via = Dictionary, advance = 9,
         emitted = Some [0xE4,0xB8,0xAD,0xE5,0x9B,0xBD,0xE4,0xBA,0xBA]\<rparr>] \<and>
   fst (segment_line_in_memory (\<lambda>_. (True, True)) [0xE4,0xB8,0xAD,0xE5,0x9B,0xBD,0xE4,0xBA,0xBA]
       [[0xE4,0xB8,0xAD,0xE5,0x9B,0xBD], [0xE4,0xB8,0xAD,0xE5,0x9B,0xBD,0xE4,0xBA,0xBA]] []
       ([], globals_init))
     = [0x5B, 0xE4,0xB8,0xAD,0xE5,0x9B,0xBD,0xE4,0xBA,0xBA, 0x5D, 0x0A]"
proof -
  let ?line = "[0xE4,0xB8,0xAD,0xE5,0x9B,0xBD,0xE4,0xBA,0xBA,0xE6,0xB0,0x91] :: cstr"
  let ?word = "[0xE4,0xB8,0xAD,0xE5,0x9B,0xBD,0xE4,0xBA,0xBA] :: cstr"
  let ?dict = "[[0xE4,0xB8,0xAD,0xE5,0x9B,0xBD], ?word] :: cstr list"
  have g1: "0 \<notin> set ?line" by simp
  have g2: "\<forall>d \<in> set ?dict. 0 \<notin> set d" by simp
  have g3: "\<forall>w \<in> set ([] :: cstr list). 0 \<notin> set w" by simp
  have h1: "0 < strlen ?line" by (simp add: strlen_def)
  have h2: "\<not> fst (check_punctuation (drop 0 ?line))" by code_simp
  have h3: "(1::nat) \<le> 9" by simp
  have h4: "9 \<le> MAX_CHINESE_BYTES" by (simp add: MAX_CHINESE_BYTES_def)
  have h5: "0 + 9 \<le> strlen ?line" by (simp add: strlen_def)
  have h6: "take 9 (drop 0 ?line) \<in> set ?dict" by simp
  have len: "\<forall>d \<in> set ?dict. length d \<le> 9" by simp
  have h7: "\<forall>L'. 9 < L' \<and> L' \<le> MAX_CHINESE_BYTES \<and> 0 + L' \<le> strlen ?line
           \<longrightarrow> take L' (drop 0 ?line) \<notin> set ?dict"
  proof (intro allI impI notI)
    fix L'
    assume a: "9 < L' \<and> L' \<le> MAX_CHINESE_BYTES \<and> 0 + L' \<le> strlen ?line"
      and m: "take L' (drop 0 ?line) \<in> set ?dict"
    from len m have "length (take L' (drop 0 ?line)) \<le> 9" by (rule bspec)
    moreover from a have "length (take L' (drop 0 ?line)) = L'" by (simp add: strlen_def)
    ultimately show False using a by (simp add: strlen_def)
  qed
  have a: "seg_iter ?line ?dict [] 0 = (Dictionary, 9, Some ?word)"
    using longest_match_wins [OF g1 g2 g3 h1 h2 h3 h4 h5 h6 h7] by simp
  have b: "seg_steps ?line ?dict [] 0
     = [\<lparr>at = 0, via = Dictionary, advance = 9, emitted = Some ?word\<rparr>,
        \<lparr>at = 9, via = Fallback, advance = 3, emitted = Some [0xE6,0xB0,0x91]\<rparr>]"
    by code_simp
  have c: "seg_steps ?word ?dict [] 0
     = [\<lparr>at = 0, via = Dictionary, advance = 9, emitted = Some ?word\<rparr>]"
    by code_simp
  have d: "fst (segment_line_in_memory (\<lambda>_. (True, True)) ?word ?dict [] ([], globals_init))
     = [0x5B, 0xE4,0xB8,0xAD,0xE5,0x9B,0xBD,0xE4,0xBA,0xBA, 0x5D, 0x0A]"
    by code_simp
  show ?thesis by (rule conjI [OF a conjI [OF b conjI [OF c d]]])
qed

text \<open>
  Claim C2. Every iteration of the loop moves the cursor forward: by the length field of
  the first matching table entry (1 or 3) in the punctuation branch, by the length of
  the match (1 to 21) in the dictionary branch, by the codepoint length the scanner
  gives (1 to 3) in the fallback branch, so by at least 1 in every case. Every iteration
  starts where the one before ended, every iteration starts inside the line, and the
  loop makes at most as many iterations as the line has bytes. The loop function
  \<open>seg_loop\<close> is total, and its result is the effect of these iterations.

  The instances below: a line of an ASCII letter, U+FF0C and U+4E2D is three iterations;
  a lone ASCII quotation mark is one punctuation step of 1 byte; on the four bytes of
  \<open>, 3x\<close> the seventh table entry matches at cursor 0 with length 3, and the letter is
  one fallback step.
\<close>

theorem tokenizer_progress:
  "1 \<le> fst (snd (seg_iter line dict stopwords start)) \<and>
   (case fst (seg_iter line dict stopwords start) of
      Punctuation \<Rightarrow> fst (snd (seg_iter line dict stopwords start)) \<in> {1, 3}
    | Dictionary \<Rightarrow> 1 \<le> fst (snd (seg_iter line dict stopwords start)) \<and>
        fst (snd (seg_iter line dict stopwords start)) \<le> MAX_CHINESE_BYTES
    | Fallback \<Rightarrow> fst (snd (seg_iter line dict stopwords start))
        = get_utf8_char_len (drop start line)) \<and>
   (\<forall>s \<in> set (seg_steps line dict stopwords 0). at s < strlen line \<and> at s < cursor_after s) \<and>
   successively (\<lambda>s t. at t = cursor_after s) (seg_steps line dict stopwords 0) \<and>
   length (seg_steps line dict stopwords 0) \<le> strlen line \<and>
   seg_loop mem line dict stopwords 0 st = run_steps mem (seg_steps line dict stopwords 0) st"
proof -
  note p = seg_steps_progress [of line dict stopwords 0]
  have "length (seg_steps line dict stopwords 0) \<le> strlen line"
    using p [THEN conjunct1] by simp
  with seg_iter_advance [of line dict stopwords start]
    seg_iter_advance_by_branch [of line dict stopwords start]
    p [THEN conjunct2, THEN conjunct1] p [THEN conjunct2, THEN conjunct2]
    seg_loop_run_steps [of mem line dict stopwords 0 st]
  show ?thesis by (intro conjI)
qed

theorem tokenizer_progress_witness:
  "map at (seg_steps [0x61, 0xEF, 0xBC, 0x8C, 0xE4, 0xB8, 0xAD] [] [] 0) = [0, 1, 4] \<and>
   map cursor_after (seg_steps [0x61, 0xEF, 0xBC, 0x8C, 0xE4, 0xB8, 0xAD] [] [] 0) = [1, 4, 7] \<and>
   length (seg_steps [0x61, 0xEF, 0xBC, 0x8C, 0xE4, 0xB8, 0xAD] [] [] 0)
     \<le> strlen [0x61, 0xEF, 0xBC, 0x8C, 0xE4, 0xB8, 0xAD] \<and>
   seg_steps [0x22] [] [] 0 = [\<lparr>at = 0, via = Punctuation, advance = 1, emitted = None\<rparr>] \<and>
   seg_steps [0x2C, 0x20, 0x33, 0x78] [] [] 0
     = [\<lparr>at = 0, via = Punctuation, advance = 3, emitted = None\<rparr>,
        \<lparr>at = 3, via = Fallback, advance = 1, emitted = Some [0x78]\<rparr>] \<and>
   length (seg_steps [0x2C, 0x20, 0x33, 0x78] [] [] 0) \<le> strlen [0x2C, 0x20, 0x33, 0x78]"
proof -
  let ?line = "[0x61, 0xEF, 0xBC, 0x8C, 0xE4, 0xB8, 0xAD] :: cstr"
  let ?text = "[0x2C, 0x20, 0x33, 0x78] :: cstr"
  have a: "map at (seg_steps ?line [] [] 0) = [0, 1, 4]" by code_simp
  have b: "map cursor_after (seg_steps ?line [] [] 0) = [1, 4, 7]" by code_simp
  note r = tokenizer_progress [of ?line "[]" "[]" 0 "\<lambda>_. (True, True)" "([], globals_init)"]
  note c = r [THEN conjunct2, THEN conjunct2, THEN conjunct2, THEN conjunct2, THEN conjunct1]
  have d: "seg_steps [0x22] [] [] 0 = [\<lparr>at = 0, via = Punctuation, advance = 1, emitted = None\<rparr>]"
    by code_simp
  have e: "seg_steps ?text [] [] 0
     = [\<lparr>at = 0, via = Punctuation, advance = 3, emitted = None\<rparr>,
        \<lparr>at = 3, via = Fallback, advance = 1, emitted = Some [0x78]\<rparr>]"
    by code_simp
  note q = tokenizer_progress [of ?text "[]" "[]" 0 "\<lambda>_. (True, True)" "([], globals_init)"]
  note f = q [THEN conjunct2, THEN conjunct2, THEN conjunct2, THEN conjunct2, THEN conjunct1]
  show ?thesis by (rule conjI [OF a conjI [OF b conjI [OF c conjI [OF d conjI [OF e f]]]]])
qed




text \<open>
  Claim C4. The punctuation check comes first: at a cursor position where the classifier
  matches, the iteration advances by the matched length and emits nothing, whatever the
  dictionary holds, and the loop goes on from there with the file and the frequency
  table as they were. The first instance below has the fullwidth comma U+FF0C both as
  the line and as the only dictionary entry: nothing is written but the newline, and the
  globals are unchanged. The same holds of the three bytes of \<open>, 3\<close>, which the seventh
  table entry matches with length 3, and of the ASCII quotation mark, which the entry
  before the last matches with length 1, each being the line and the only dictionary
  entry.
\<close>

theorem punctuation_before_dictionary:
  assumes "start < strlen line"
    and "check_punctuation (drop start line) = (True, n)"
  shows "seg_iter line dict stopwords start = (Punctuation, n, None) \<and>
         seg_loop mem line dict stopwords start (seg_file, g) =
           seg_loop mem line dict stopwords (start + n) (seg_file, g)"
  using assms(2) by (simp add: seg_loop_step [OF assms(1)] seg_iter_Punctuation)

theorem punctuation_before_dictionary_witness:
  "in_dict [0xEF, 0xBC, 0x8C] [[0xEF, 0xBC, 0x8C]] \<and>
   seg_iter [0xEF, 0xBC, 0x8C] [[0xEF, 0xBC, 0x8C]] [] 0 = (Punctuation, 3, None) \<and>
   segment_line_in_memory (\<lambda>_. (True, True)) [0xEF, 0xBC, 0x8C] [[0xEF, 0xBC, 0x8C]] []
       ([], globals_init) = ([0x0A], globals_init) \<and>
   in_dict [0x2C, 0x20, 0x33] [[0x2C, 0x20, 0x33]] \<and>
   seg_iter [0x2C, 0x20, 0x33] [[0x2C, 0x20, 0x33]] [] 0 = (Punctuation, 3, None) \<and>
   segment_line_in_memory (\<lambda>_. (True, True)) [0x2C, 0x20, 0x33] [[0x2C, 0x20, 0x33]] []
       ([], globals_init) = ([0x0A], globals_init) \<and>
   in_dict [0x22] [[0x22]] \<and>
   seg_iter [0x22] [[0x22]] [] 0 = (Punctuation, 1, None) \<and>
   segment_line_in_memory (\<lambda>_. (True, True)) [0x22] [[0x22]] []
       ([], globals_init) = ([0x0A], globals_init)"
proof -
  let ?line = "[0xEF, 0xBC, 0x8C] :: cstr"
  let ?text = "[0x2C, 0x20, 0x33] :: cstr"
  let ?mark = "[0x22] :: cstr"
  let ?mem = "\<lambda>_::nat. (True, True)"
  have h1: "0 < strlen ?line" by (simp add: strlen_def)
  have h2: "check_punctuation (drop 0 ?line) = (True, 3)" by code_simp
  have d: "in_dict ?line [?line]" by code_simp
  note r = punctuation_before_dictionary [OF h1 h2, of "[?line]" "[]" ?mem "[]" globals_init]
  note a = r [THEN conjunct1] and b = r [THEN conjunct2]
  have e: "seg_loop ?mem ?line [?line] [] (0 + 3) ([], globals_init) = ([], globals_init)"
    by (rule seg_loop_end) (simp add: strlen_def)
  have c: "segment_line_in_memory ?mem ?line [?line] [] ([], globals_init)
      = ([0x0A], globals_init)"
    unfolding segment_line_in_memory_def b e by simp
  have t1: "0 < strlen ?text" by (simp add: strlen_def)
  have t2: "check_punctuation (drop 0 ?text) = (True, 3)" by code_simp
  have td: "in_dict ?text [?text]" by code_simp
  note tr = punctuation_before_dictionary [OF t1 t2, of "[?text]" "[]" ?mem "[]" globals_init]
  note ta = tr [THEN conjunct1] and tb = tr [THEN conjunct2]
  have te: "seg_loop ?mem ?text [?text] [] (0 + 3) ([], globals_init) = ([], globals_init)"
    by (rule seg_loop_end) (simp add: strlen_def)
  have tc: "segment_line_in_memory ?mem ?text [?text] [] ([], globals_init)
      = ([0x0A], globals_init)"
    unfolding segment_line_in_memory_def tb te by simp
  have m1: "0 < strlen ?mark" by (simp add: strlen_def)
  have m2: "check_punctuation (drop 0 ?mark) = (True, 1)" by code_simp
  have md: "in_dict ?mark [?mark]" by code_simp
  note mr = punctuation_before_dictionary [OF m1 m2, of "[?mark]" "[]" ?mem "[]" globals_init]
  note ma = mr [THEN conjunct1] and mb = mr [THEN conjunct2]
  have me: "seg_loop ?mem ?mark [?mark] [] (0 + 1) ([], globals_init) = ([], globals_init)"
    by (rule seg_loop_end) (simp add: strlen_def)
  have mc: "segment_line_in_memory ?mem ?mark [?mark] [] ([], globals_init)
      = ([0x0A], globals_init)"
    unfolding segment_line_in_memory_def mb me by simp
  show ?thesis
    by (rule conjI [OF d conjI [OF a conjI [OF c conjI [OF td conjI [OF ta conjI [OF tc
          conjI [OF md conjI [OF ma mc]]]]]]]])
qed

text \<open>
  Claim C5. The line, the dictionary words and the stopwords are C strings, so none holds
  a NUL byte. When the longest dictionary match at the cursor, the substring of \<open>L\<close>
  bytes, is a member of the stopwords, the iteration emits nothing and still advances by
  \<open>L\<close>; the loop goes on with the file and the frequency table as they were. The first
  instance below has U+7684 as the only dictionary entry, as the only stopword, and as
  the line: one step of 3 bytes, which is the whole line, no token, globals unchanged.
  In the second the stopword is the first of two codepoints of the line U+7684 U+4E2D:
  the step over the stopword is silent and the second codepoint is emitted.
\<close>

theorem stopword_match_consumed_silently:
  assumes "0 \<notin> set line" and "\<forall>d \<in> set dict. 0 \<notin> set d"
    and "\<forall>w \<in> set stopwords. 0 \<notin> set w"
    and "start < strlen line"
    and "\<not> fst (check_punctuation (drop start line))"
    and "1 \<le> L" and "L \<le> MAX_CHINESE_BYTES" and "start + L \<le> strlen line"
    and "take L (drop start line) \<in> set dict"
    and "\<forall>L'. L < L' \<and> L' \<le> MAX_CHINESE_BYTES \<and> start + L' \<le> strlen line
           \<longrightarrow> take L' (drop start line) \<notin> set dict"
    and "take L (drop start line) \<in> set stopwords"
  shows "seg_iter line dict stopwords start = (Dictionary, L, None) \<and>
         seg_loop mem line dict stopwords start (seg_file, g) =
           seg_loop mem line dict stopwords (start + L) (seg_file, g)"
proof -
  note nul = take_drop_no_NUL [OF assms(1)]
  have mem: "in_dict (strncpy (drop start line) n) dict \<longleftrightarrow> take n (drop start line) \<in> set dict"
    for n
    unfolding strncpy_def by (rule in_dict_iff [OF nul assms(2)])
  have stop: "is_stopword (strncpy (drop start line) n) stopwords
      \<longleftrightarrow> take n (drop start line) \<in> set stopwords" for n
    unfolding strncpy_def by (rule is_stopword_iff [OF nul assms(3)])
  from assms(9) have h6: "in_dict (strncpy (drop start line) L) dict"
    by (simp only: mem)
  from assms(10) have h7: "\<forall>L'. L < L' \<and> L' \<le> MAX_CHINESE_BYTES \<and> start + L' \<le> strlen line
      \<longrightarrow> \<not> in_dict (strncpy (drop start line) L') dict"
    by (simp only: mem)
  from assms(11) have h8: "is_stopword (strncpy (drop start line) L) stopwords"
    by (simp only: stop)
  have "seg_iter line dict stopwords start = (Dictionary, L, None)"
    using seg_iter_Dictionary [OF assms(5) dict_match_eq_longest [OF assms(6-8) h6 h7], of stopwords]
      h8 by simp
  then show ?thesis by (simp add: seg_loop_step [OF assms(4)])
qed

theorem stopword_match_consumed_silently_witness:
  "seg_steps [0xE7, 0x9A, 0x84] [[0xE7, 0x9A, 0x84]] [[0xE7, 0x9A, 0x84]] 0
     = [\<lparr>at = 0, via = Dictionary, advance = 3, emitted = None\<rparr>] \<and>
   strlen [0xE7, 0x9A, 0x84] = 3 \<and>
   segment_line_in_memory (\<lambda>_. (True, True)) [0xE7, 0x9A, 0x84] [[0xE7, 0x9A, 0x84]]
       [[0xE7, 0x9A, 0x84]] ([], globals_init) = ([0x0A], globals_init) \<and>
   seg_iter [0xE7, 0x9A, 0x84, 0xE4, 0xB8, 0xAD] [[0xE7, 0x9A, 0x84]] [[0xE7, 0x9A, 0x84]] 0
     = (Dictionary, 3, None) \<and>
   seg_steps [0xE7, 0x9A, 0x84, 0xE4, 0xB8, 0xAD] [[0xE7, 0x9A, 0x84]] [[0xE7, 0x9A, 0x84]] 0
     = [\<lparr>at = 0, via = Dictionary, advance = 3, emitted = None\<rparr>,
        \<lparr>at = 3, via = Fallback, advance = 3, emitted = Some [0xE4, 0xB8, 0xAD]\<rparr>]"
proof -
  let ?line = "[0xE7, 0x9A, 0x84] :: cstr"
  let ?long = "[0xE7, 0x9A, 0x84, 0xE4, 0xB8, 0xAD] :: cstr"
  let ?mem = "\<lambda>_::nat. (True, True)"
  have g1: "0 \<notin> set ?line" by simp
  have g2: "\<forall>d \<in> set [?line]. 0 \<notin> set d" by simp
  have h1: "0 < strlen ?line" by (simp add: strlen_def)
  have h2: "\<not> fst (check_punctuation (drop 0 ?line))" by code_simp
  have h3: "(1::nat) \<le> 3" by simp
  have h4: "3 \<le> MAX_CHINESE_BYTES" by (simp add: MAX_CHINESE_BYTES_def)
  have h5: "0 + 3 \<le> strlen ?line" by (simp add: strlen_def)
  have h6: "take 3 (drop 0 ?line) \<in> set [?line]" by simp
  have h7: "\<forall>L'. 3 < L' \<and> L' \<le> MAX_CHINESE_BYTES \<and> 0 + L' \<le> strlen ?line
           \<longrightarrow> take L' (drop 0 ?line) \<notin> set [?line]"
    by (simp add: strlen_def)
  note r = stopword_match_consumed_silently [OF g1 g2 g2 h1 h2 h3 h4 h5 h6 h7 h6,
      of ?mem "[]" globals_init]
  note b = r [THEN conjunct2]
  have e: "seg_loop ?mem ?line [?line] [?line] (0 + 3) ([], globals_init) = ([], globals_init)"
    by (rule seg_loop_end) (simp add: strlen_def)
  have c: "segment_line_in_memory ?mem ?line [?line] [?line] ([], globals_init)
      = ([0x0A], globals_init)"
    unfolding segment_line_in_memory_def b e by simp
  have s: "seg_steps ?line [?line] [?line] 0
      = [\<lparr>at = 0, via = Dictionary, advance = 3, emitted = None\<rparr>]"
    by code_simp
  have l: "strlen ?line = 3" by (simp add: strlen_def)
  have k1: "0 \<notin> set ?long" by simp
  have k2: "0 < strlen ?long" by (simp add: strlen_def)
  have k3: "\<not> fst (check_punctuation (drop 0 ?long))" by code_simp
  have k5: "0 + 3 \<le> strlen ?long" by (simp add: strlen_def)
  have k6: "take 3 (drop 0 ?long) \<in> set [?line]" by simp
  have k7: "\<forall>L'. 3 < L' \<and> L' \<le> MAX_CHINESE_BYTES \<and> 0 + L' \<le> strlen ?long
           \<longrightarrow> take L' (drop 0 ?long) \<notin> set [?line]"
  proof (intro allI impI notI)
    fix L'
    assume a: "3 < L' \<and> L' \<le> MAX_CHINESE_BYTES \<and> 0 + L' \<le> strlen ?long"
      and m: "take L' (drop 0 ?long) \<in> set [?line]"
    from m have "length (take L' (drop 0 ?long)) = 3" by simp
    moreover from a have "length (take L' (drop 0 ?long)) = L'" by (simp add: strlen_def)
    ultimately show False using a by (simp add: strlen_def)
  qed
  note q = stopword_match_consumed_silently [OF k1 g2 g2 k2 k3 h3 h4 k5 k6 k7 k6,
      of ?mem "[]" globals_init]
  note i = q [THEN conjunct1]
  have t: "seg_steps ?long [?line] [?line] 0
      = [\<lparr>at = 0, via = Dictionary, advance = 3, emitted = None\<rparr>,
         \<lparr>at = 3, via = Fallback, advance = 3, emitted = Some [0xE4, 0xB8, 0xAD]\<rparr>]"
    by code_simp
  show ?thesis by (rule conjI [OF s conjI [OF l conjI [OF c conjI [OF i t]]]])
qed

text \<open>
  Claim C6. The scanner looks at the byte under the pointer only. It returns 1 when bit 7
  of that byte is clear, 2 when the byte has the form 110xxxxx, 3 when it has the form
  1110xxxx, and 1 for every other byte (a lead byte of a four-byte sequence, 11110xxx,
  or a continuation byte 10xxxxxx). It is a total function and its result is at least 1.
\<close>

theorem get_utf8_char_len_patterns:
  "(\<not> bit (peek str) 7 \<longrightarrow> get_utf8_char_len str = 1) \<and>
   (bit (peek str) 7 \<and> bit (peek str) 6 \<and> \<not> bit (peek str) 5 \<longrightarrow> get_utf8_char_len str = 2) \<and>
   (bit (peek str) 7 \<and> bit (peek str) 6 \<and> bit (peek str) 5 \<and> \<not> bit (peek str) 4
      \<longrightarrow> get_utf8_char_len str = 3) \<and>
   (bit (peek str) 7 \<and> \<not> bit (peek str) 6 \<longrightarrow> get_utf8_char_len str = 1) \<and>
   (bit (peek str) 7 \<and> bit (peek str) 6 \<and> bit (peek str) 5 \<and> bit (peek str) 4
      \<longrightarrow> get_utf8_char_len str = 1) \<and>
   1 \<le> get_utf8_char_len str"
  unfolding get_utf8_char_len_def mask_80 mask_E0 mask_F0 by simp

theorem get_utf8_char_len_patterns_witness:
  "get_utf8_char_len [0x61] = 1 \<and> get_utf8_char_len [0xC3, 0xA9] = 2 \<and>
   get_utf8_char_len [0xE4, 0xB8, 0xAD] = 3 \<and> get_utf8_char_len [0xF0, 0x9F, 0x98, 0x80] = 1 \<and>
   get_utf8_char_len [0xAD] = 1"
  using get_utf8_char_len_patterns [of "[0x61]"] get_utf8_char_len_patterns [of "[0xC3, 0xA9]"]
    get_utf8_char_len_patterns [of "[0xE4, 0xB8, 0xAD]"]
    get_utf8_char_len_patterns [of "[0xF0, 0x9F, 0x98, 0x80]"]
    get_utf8_char_len_patterns [of "[0xAD]"]
  by (simp add: peek_def get_utf8_char_len_def)



text \<open>
  Claim C8, as the code has it. The claim fails on a codepoint of four bytes: the scanner
  gives 1 for its lead byte 11110xxx and for each of its continuation bytes, so the
  fallback branch emits the four bytes as four tokens. On the line F0 9F 98 80 (U+1F600)
  with no dictionary the first token is the byte F0 alone, which ends at position 1,
  inside the codepoint.
\<close>

theorem token_alignment_counterexample:
  "map emitted (seg_steps [0xF0, 0x9F, 0x98, 0x80] [] [] 0)
     = [Some [0xF0], Some [0x9F], Some [0x98], Some [0x80]] \<and>
   \<not> is_char_boundary [0xF0, 0x9F, 0x98, 0x80] 1 \<and>
   \<not> list_all (token_aligned [0xF0, 0x9F, 0x98, 0x80]) (seg_steps [0xF0, 0x9F, 0x98, 0x80] [] [] 0)"
proof -
  have a: "map emitted (seg_steps [0xF0, 0x9F, 0x98, 0x80] [] [] 0)
     = [Some [0xF0], Some [0x9F], Some [0x98], Some [0x80]]"
    by code_simp
  have b: "\<not> is_char_boundary [0xF0, 0x9F, 0x98, 0x80] 1" by code_simp
  have c: "\<not> list_all (token_aligned [0xF0, 0x9F, 0x98, 0x80])
      (seg_steps [0xF0, 0x9F, 0x98, 0x80] [] [] 0)"
    by code_simp
  show ?thesis by (rule conjI [OF a conjI [OF b c]])
qed

text \<open>
  Claim C8, amended. For every line, dictionary and stopword set, every emitted token is
  a slice of the line, taken at the cursor, of 1 to 21 bytes. When the line and every
  dictionary entry are well-formed UTF-8 made of codepoints of one, two and three bytes,
  every emitted token begins and ends on a codepoint boundary of the line and consists
  of whole codepoints. The instances below are a line of an ASCII letter, U+FF0C and
  U+4E2D with U+4E2D as dictionary, whose tokens are the letter and the dictionary word,
  and the four bytes of \<open>, 3x\<close>, whose only token is the letter at cursor 3.
\<close>

theorem tokens_sliced_and_aligned:
  "list_all (token_sliced line) (seg_steps line dict stopwords 0) \<and>
   (utf8_ok line \<and> (\<forall>d \<in> set dict. utf8_ok d) \<longrightarrow>
      list_all (token_aligned line) (seg_steps line dict stopwords 0))"
proof -
  have sliced: "token_sliced line s" if s: "s \<in> set (seg_steps line dict stopwords 0)" for s
  proof (cases "emitted s")
    case None
    then show ?thesis by (simp add: token_sliced_def)
  next
    case (Some tok)
    from seg_steps_member [OF s] have lt: "at s < strlen line"
      and it: "(via s, advance s, emitted s) = seg_iter line dict stopwords (at s)"
      by simp_all
    from it Some have "snd (snd (seg_iter line dict stopwords (at s))) = Some tok"
      by (metis snd_conv)
    from seg_iter_sliced [OF lt this] Some show ?thesis
      by (simp add: token_sliced_def)
  qed
  have aligned: "token_aligned line s"
    if ok: "utf8_ok line" and dict: "\<forall>d \<in> set dict. utf8_ok d"
      and s: "s \<in> set (seg_steps line dict stopwords 0)" for s
  proof (cases "emitted s")
    case None
    then show ?thesis by (simp add: token_aligned_def)
  next
    case (Some tok)
    from ok have ok0: "utf8_ok (drop 0 line)" by simp
    from seg_steps_member [OF s] have lt: "at s < strlen line" by simp
    from seg_steps_utf8_ok [OF dict ok0 s] Some
    have here: "utf8_ok (drop (at s) line)" and tok: "utf8_ok tok"
      and there: "utf8_ok (drop (at s + length tok) line)"
      and fit: "at s + length tok \<le> strlen line"
      by simp_all
    from lt have "at s \<le> length line" by (simp add: strlen_def)
    from utf8_ok_boundary [OF here this] have b1: "is_char_boundary line (at s)" .
    from fit have "at s + length tok \<le> length line" by (simp add: strlen_def)
    from utf8_ok_boundary [OF there this]
    have b2: "is_char_boundary line (at s + length tok)" .
    from Some b1 b2 tok show ?thesis by (simp add: token_aligned_def)
  qed
  from sliced aligned show ?thesis by (simp add: list_all_iff)
qed

theorem tokens_sliced_and_aligned_witness:
  "utf8_ok [0x61, 0xEF, 0xBC, 0x8C, 0xE4, 0xB8, 0xAD] \<and> utf8_ok [0xE4, 0xB8, 0xAD] \<and>
   map emitted (seg_steps [0x61, 0xEF, 0xBC, 0x8C, 0xE4, 0xB8, 0xAD] [[0xE4, 0xB8, 0xAD]] [] 0)
     = [Some [0x61], None, Some [0xE4, 0xB8, 0xAD]] \<and>
   list_all (token_sliced [0x61, 0xEF, 0xBC, 0x8C, 0xE4, 0xB8, 0xAD])
     (seg_steps [0x61, 0xEF, 0xBC, 0x8C, 0xE4, 0xB8, 0xAD] [[0xE4, 0xB8, 0xAD]] [] 0) \<and>
   list_all (token_aligned [0x61, 0xEF, 0xBC, 0x8C, 0xE4, 0xB8, 0xAD])
     (seg_steps [0x61, 0xEF, 0xBC, 0x8C, 0xE4, 0xB8, 0xAD] [[0xE4, 0xB8, 0xAD]] [] 0) \<and>
   utf8_ok [0x2C, 0x20, 0x33, 0x78] \<and>
   map emitted (seg_steps [0x2C, 0x20, 0x33, 0x78] [] [] 0) = [None, Some [0x78]] \<and>
   list_all (token_sliced [0x2C, 0x20, 0x33, 0x78]) (seg_steps [0x2C, 0x20, 0x33, 0x78] [] [] 0) \<and>
   list_all (token_aligned [0x2C, 0x20, 0x33, 0x78]) (seg_steps [0x2C, 0x20, 0x33, 0x78] [] [] 0)"
proof -
  let ?line = "[0x61, 0xEF, 0xBC, 0x8C, 0xE4, 0xB8, 0xAD] :: cstr"
  let ?word = "[0xE4, 0xB8, 0xAD] :: cstr"
  let ?text = "[0x2C, 0x20, 0x33, 0x78] :: cstr"
  have h1: "utf8_ok ?line" by code_simp
  have h2: "utf8_ok ?word" by code_simp
  then have h3: "\<forall>d \<in> set [?word]. utf8_ok d" by simp
  have e: "map emitted (seg_steps ?line [?word] [] 0) = [Some [0x61], None, Some ?word]"
    by code_simp
  note r = tokens_sliced_and_aligned [of ?line "[?word]" "[]"]
  note a = r [THEN conjunct1]
  note b = r [THEN conjunct2, rule_format, OF conjI [OF h1 h3]]
  have t1: "utf8_ok ?text" by code_simp
  have t3: "\<forall>d \<in> set ([] :: cstr list). utf8_ok d" by simp
  have te: "map emitted (seg_steps ?text [] [] 0) = [None, Some [0x78]]"
    by code_simp
  note tr = tokens_sliced_and_aligned [of ?text "[]" "[]"]
  note ta = tr [THEN conjunct1]
  note tb = tr [THEN conjunct2, rule_format, OF conjI [OF t1 t3]]
  show ?thesis
    by (rule conjI [OF h1 conjI [OF h2 conjI [OF e conjI [OF a conjI [OF b
          conjI [OF t1 conjI [OF te conjI [OF ta tb]]]]]]]])
qed



text \<open>
  Claim C10, as the code has it. The claim fails at an ASCII apostrophe that is not the
  last byte of the line. On the line of the two bytes 0x27 0x61, with no dictionary and
  no stopwords, the punctuation check at cursor 0 fails (the text goes on after the
  apostrophe, and \<open>strncmp\<close> over 3 bytes sees the difference), no dictionary length
  matches, and the re-check on the extracted codepoint succeeds: the buffer holds the
  apostrophe and NUL padding, which is what the pattern of the table entry and its
  terminator are. The apostrophe is not a stopword and is not emitted; the variant
  without the re-check emits it.
\<close>

theorem recheck_counterexample:
  "\<not> fst (check_punctuation (drop 0 [0x27, 0x61])) \<and>
   dict_match [0x27, 0x61] 0 [] MAX_CHINESE_BYTES = None \<and>
   fst (check_punctuation (strncpy (drop 0 [0x27, 0x61]) (get_utf8_char_len (drop 0 [0x27, 0x61])))) \<and>
   \<not> is_stopword (strncpy (drop 0 [0x27, 0x61]) (get_utf8_char_len (drop 0 [0x27, 0x61]))) [] \<and>
   seg_steps [0x27, 0x61] [] [] 0
     = [\<lparr>at = 0, via = Fallback, advance = 1, emitted = None\<rparr>,
        \<lparr>at = 1, via = Fallback, advance = 1, emitted = Some [0x61]\<rparr>] \<and>
   seg_steps_no_recheck [0x27, 0x61] [] [] 0
     = [\<lparr>at = 0, via = Fallback, advance = 1, emitted = Some [0x27]\<rparr>,
        \<lparr>at = 1, via = Fallback, advance = 1, emitted = Some [0x61]\<rparr>]"
proof -
  have a: "\<not> fst (check_punctuation (drop 0 [0x27, 0x61]))" by code_simp
  have b: "dict_match [0x27, 0x61] 0 [] MAX_CHINESE_BYTES = None" by code_simp
  have c: "fst (check_punctuation (strncpy (drop 0 [0x27, 0x61])
      (get_utf8_char_len (drop 0 [0x27, 0x61]))))"
    by code_simp
  have d: "\<not> is_stopword (strncpy (drop 0 [0x27, 0x61]) (get_utf8_char_len (drop 0 [0x27, 0x61]))) []"
    by simp
  have e: "seg_steps [0x27, 0x61] [] [] 0
     = [\<lparr>at = 0, via = Fallback, advance = 1, emitted = None\<rparr>,
        \<lparr>at = 1, via = Fallback, advance = 1, emitted = Some [0x61]\<rparr>]"
    by code_simp
  have f: "seg_steps_no_recheck [0x27, 0x61] [] [] 0
     = [\<lparr>at = 0, via = Fallback, advance = 1, emitted = Some [0x27]\<rparr>,
        \<lparr>at = 1, via = Fallback, advance = 1, emitted = Some [0x61]\<rparr>]"
    by code_simp
  show ?thesis by (rule conjI [OF a conjI [OF b conjI [OF c conjI [OF d conjI [OF e f]]]]])
qed

text \<open>
  Claim C10, amended. At a cursor position whose byte is not the ASCII apostrophe the
  re-check of the fallback branch never succeeds: where the punctuation check on the rest
  of the line fails, it fails on the extracted codepoint too, and a fallback codepoint
  that does not begin with the apostrophe is emitted if and only if it is not a stopword.
  On a line without the apostrophe the tokenizer makes the same steps as the variant
  without the re-check. The instances below are a line of an ASCII letter (a stopword),
  U+FF0C and U+4E2D, and the line of an ASCII comma and a letter: the comma begins the
  pattern of the seventh table entry, which matches neither the line at the cursor nor
  the extracted comma, and the comma is emitted.
\<close>

theorem recheck_redundant_without_apostrophe:
  "(\<forall>start. peek (drop start line) \<noteq> 0x27 \<and> \<not> fst (check_punctuation (drop start line)) \<longrightarrow>
      \<not> fst (check_punctuation
              (strncpy (drop start line) (get_utf8_char_len (drop start line))))) \<and>
   (\<forall>s \<in> set (seg_steps line dict stopwords 0).
      via s = Fallback \<and> peek (drop (at s) line) \<noteq> 0x27 \<longrightarrow>
        (emitted s \<noteq> None \<longleftrightarrow>
           \<not> is_stopword (strncpy (drop (at s) line) (advance s)) stopwords)) \<and>
   (0x27 \<notin> set line \<longrightarrow>
      seg_steps_no_recheck line dict stopwords 0 = seg_steps line dict stopwords 0)"
proof -
  have len: "1 \<le> get_utf8_char_len (drop start line)" for start
    using get_utf8_char_len_range [of "drop start line"] by auto
  have re: "\<not> fst (check_punctuation (strncpy (drop start line) (get_utf8_char_len (drop start line))))"
    if "peek (drop start line) \<noteq> 0x27" and "\<not> fst (check_punctuation (drop start line))"
    for start
    by (rule recheck_fails [OF that(2) that(1) len])
  have fb: "emitted s \<noteq> None \<longleftrightarrow> \<not> is_stopword (strncpy (drop (at s) line) (advance s)) stopwords"
    if s: "s \<in> set (seg_steps line dict stopwords 0)" and v: "via s = Fallback"
      and ap: "peek (drop (at s) line) \<noteq> 0x27" for s
  proof -
    from seg_steps_member [OF s]
    have it: "(via s, advance s, emitted s) = seg_iter line dict stopwords (at s)" by simp
    with v have "fst (seg_iter line dict stopwords (at s)) = Fallback"
      by (metis fst_conv)
    from seg_iter_Fallback_only [OF this]
    have top: "\<not> fst (check_punctuation (drop (at s) line))"
      and dm: "dict_match line (at s) dict MAX_CHINESE_BYTES = None"
      by simp_all
    from it seg_iter_Fallback [OF top dm, of stopwords] re [OF ap top]
    show ?thesis by (auto split: if_splits)
  qed
  from re fb seg_steps_no_recheck_eq [of line dict stopwords 0] show ?thesis by blast
qed

theorem recheck_redundant_without_apostrophe_witness:
  "0x27 \<notin> set ([0x61, 0xEF, 0xBC, 0x8C, 0xE4, 0xB8, 0xAD] :: cstr) \<and>
   seg_steps_no_recheck [0x61, 0xEF, 0xBC, 0x8C, 0xE4, 0xB8, 0xAD] [] [[0x61]] 0
     = seg_steps [0x61, 0xEF, 0xBC, 0x8C, 0xE4, 0xB8, 0xAD] [] [[0x61]] 0 \<and>
   seg_steps [0x61, 0xEF, 0xBC, 0x8C, 0xE4, 0xB8, 0xAD] [] [[0x61]] 0
     = [\<lparr>at = 0, via = Fallback, advance = 1, emitted = None\<rparr>,
        \<lparr>at = 1, via = Punctuation, advance = 3, emitted = None\<rparr>,
        \<lparr>at = 4, via = Fallback, advance = 3, emitted = Some [0xE4, 0xB8, 0xAD]\<rparr>] \<and>
   0x27 \<notin> set ([0x2C, 0x78] :: cstr) \<and>
   seg_steps_no_recheck [0x2C, 0x78] [] [] 0 = seg_steps [0x2C, 0x78] [] [] 0 \<and>
   seg_steps [0x2C, 0x78] [] [] 0
     = [\<lparr>at = 0, via = Fallback, advance = 1, emitted = Some [0x2C]\<rparr>,
        \<lparr>at = 1, via = Fallback, advance = 1, emitted = Some [0x78]\<rparr>]"
proof -
  let ?line = "[0x61, 0xEF, 0xBC, 0x8C, 0xE4, 0xB8, 0xAD] :: cstr"
  let ?text = "[0x2C, 0x78] :: cstr"
  have h: "0x27 \<notin> set ?line" by simp
  note r = recheck_redundant_without_apostrophe [of ?line "[]" "[[0x61]]"]
  note a = r [THEN conjunct2, THEN conjunct2, rule_format, OF h]
  have b: "seg_steps ?line [] [[0x61]] 0
     = [\<lparr>at = 0, via = Fallback, advance = 1, emitted = None\<rparr>,
        \<lparr>at = 1, via = Punctuation, advance = 3, emitted = None\<rparr>,
        \<lparr>at = 4, via = Fallback, advance = 3, emitted = Some [0xE4, 0xB8, 0xAD]\<rparr>]"
    by code_simp
  have k: "0x27 \<notin> set ?text" by simp
  note q = recheck_redundant_without_apostrophe [of ?text "[]" "[]"]
  note c = q [THEN conjunct2, THEN conjunct2, rule_format, OF k]
  have d: "seg_steps ?text [] [] 0
     = [\<lparr>at = 0, via = Fallback, advance = 1, emitted = Some [0x2C]\<rparr>,
        \<lparr>at = 1, via = Fallback, advance = 1, emitted = Some [0x78]\<rparr>]"
    by code_simp
  show ?thesis by (rule conjI [OF h conjI [OF a conjI [OF b conjI [OF k conjI [OF c d]]]]])
qed

end
